theory Spec2Isabelle
  imports Main "HOL-Library.Sublist"
begin

section \<open>The stream registry of simpleStreamSync.ts\<close>

text \<open>
  A shallow embedding of the class \<^verbatim>\<open>SimpleStreamSync\<close>
  (packages/nextjs/lib/simpleStreamSync.ts). The registry keeps no state of its own besides
  the listener map: every operation reads and writes \<^verbatim>\<open>localStorage\<close>, so the operations
  are functions from a storage to a result and a new storage.

  Conventions of the model:
  \<^item> \<^verbatim>\<open>Date.now()\<close> and the random suffix of generated ids are arguments (\<open>now\<close>, and the
    generated id); one clock reading is used for a whole call.
  \<^item> JavaScript numbers are IEEE 754 doubles. The epoch milliseconds and viewer counts of
    the model are the whole numbers among them, as \<open>int\<close>. The two numbers the code
    computes and stores, \<^verbatim>\<open>viewerCount + 1\<close> and \<^verbatim>\<open>viewerCount - 1\<close>, are rounded to the
    nearest double (\<open>roundDouble\<close> below), which changes them only beyond \<open>2 ^ 53\<close>. The
    age \<^verbatim>\<open>currentTime - startTime\<close> is only compared with \<^verbatim>\<open>maxAge\<close>, and rounding it
    to a double does not change the outcome of that comparison (lemma \<open>age_rounding\<close>), so
    the difference is taken in \<open>int\<close>.
  \<^item> A stored text is represented by what \<^verbatim>\<open>JSON.parse\<close> makes of it at the type the reading
    code annotates (\<^verbatim>\<open>StreamData\<close>, \<^verbatim>\<open>StreamData[]\<close>, \<^verbatim>\<open>ChatMessage[]\<close>); a text that
    \<^verbatim>\<open>JSON.parse\<close> rejects is \<open>Corrupt\<close>, and the empty text (which is falsy in the
    \<^verbatim>\<open>if (data)\<close> tests and is rejected by \<^verbatim>\<open>JSON.parse\<close>) is \<open>Empty\<close>. JSON of
    another shape than the annotation of the reader (a transcript under a stream key, the
    text \<^verbatim>\<open>null\<close>) is outside the TypeScript types and is written by no operation of the
    registry. The storages without such a text under the registry's keys are the \<open>typed\<close>
    ones below; every storage the registry builds is typed (lemma \<open>typed_reachable\<close>).
    Where the constructors allow a value of another shape, it is read like a text that does
    not parse, with one exception: the spread of the transcript (\<open>spreadMessages\<close> below)
    throws, as in the code, for a value that is not an array.
  \<^item> \<^verbatim>\<open>localStorage\<close> itself never fails (no quota, no security error): \<^verbatim>\<open>setItem\<close>
    accepts every write.
  \<^item> Event emission and the broadcast channel do not touch \<^verbatim>\<open>localStorage\<close>; the event
    hub is modelled on its own below, the storage operations leave the calls out.
  \<^item> The timers (the 500 ms interval, the 50 ms and 100 ms delays) call
    \<^verbatim>\<open>getAllStreamsFromStorage\<close>; each such call is a call of its own in the model.
    \<^verbatim>\<open>clearAllStreams\<close>, \<^verbatim>\<open>off\<close> and \<^verbatim>\<open>cleanup\<close> are not modelled.
  \<^item> An exception that no \<^verbatim>\<open>try\<close> block of the registry catches leaves the call; such a
    call returns \<open>Inl\<close> of the error, and the storage it has written up to there.
\<close>

subsection \<open>Data\<close>

text \<open>\<^verbatim>\<open>interface StreamData\<close>; the field \<^verbatim>\<open>id\<close> is \<open>sid\<close> here.\<close>

record StreamData =
  sid :: string
  title :: string
  category :: string
  topic :: string
  streamerAddress :: string
  isLive :: bool
  viewerCount :: int
  startTime :: int
  moderators :: "string list"
  lastUpdate :: int

text \<open>\<^verbatim>\<open>Partial<StreamData>\<close>: every field may be missing.\<close>

record StreamDataPartial =
  p_sid :: "string option"
  p_title :: "string option"
  p_category :: "string option"
  p_topic :: "string option"
  p_streamerAddress :: "string option"
  p_isLive :: "bool option"
  p_viewerCount :: "int option"
  p_startTime :: "int option"
  p_moderators :: "string list option"
  p_lastUpdate :: "int option"

definition noUpdates :: StreamDataPartial where
  "noUpdates = \<lparr> p_sid = None, p_title = None, p_category = None, p_topic = None,
     p_streamerAddress = None, p_isLive = None, p_viewerCount = None, p_startTime = None,
     p_moderators = None, p_lastUpdate = None \<rparr>"

datatype MessageType = Message | Join | Leave | System

text \<open>\<^verbatim>\<open>interface ChatMessage\<close>; \<^verbatim>\<open>id\<close> is \<open>mid\<close> and \<^verbatim>\<open>type\<close> is \<open>mtype\<close>.\<close>

record ChatMessage =
  mid :: string
  streamId :: string
  sender :: string
  senderAddress :: "string option"
  message :: string
  timestamp :: int
  mtype :: MessageType

text \<open>The one exception that can leave a call of the registry.\<close>

datatype error = TypeError

subsection \<open>Numbers\<close>

text \<open>
  The number of binary digits of a natural number, and the rounding of a whole number to
  the nearest double. A double has a significand of 53 binary digits, so a magnitude \<open>m\<close>
  with more digits is rounded to a multiple of \<open>2 ^ (bitLength m - 53)\<close>, the nearer of
  its two neighbours and, half way between them, the one whose significand is even. (The
  model has no infinities: magnitudes stay below \<open>2 ^ 1024\<close>.)
\<close>

fun bitLength :: "nat \<Rightarrow> nat" where
  "bitLength n = (if n = 0 then 0 else Suc (bitLength (n div 2)))"

declare bitLength.simps [simp del]

definition roundMagnitude :: "nat \<Rightarrow> nat" where
  "roundMagnitude m =
     (let u = 2 ^ (bitLength m - 53); q = m div u; r = m mod u
      in if 2 * r < u \<or> (2 * r = u \<and> even q) then q * u else (q + 1) * u)"

definition roundDouble :: "int \<Rightarrow> int" where
  "roundDouble x =
     (if \<bar>x\<bar> \<le> 2 ^ 53 then x else sgn x * int (roundMagnitude (nat \<bar>x\<bar>)))"

subsection \<open>localStorage\<close>

text \<open>
  The storage is the list of its entries in the order \<^verbatim>\<open>localStorage.key(i)\<close> enumerates
  them. \<^verbatim>\<open>removeItem\<close> takes the entry out, so that the entries behind it move down by one
  index; \<^verbatim>\<open>setItem\<close> overwrites the value of a key that is present in place and puts a new
  key at the end. (The order of the keys is left to the browser; the theorems below hold for
  every order of the entries of the storage they start from.)
\<close>

datatype StoredValue =
    Empty
  | Corrupt
  | VStream StreamData
  | VStreams "StreamData list"
  | VChat "ChatMessage list"

type_synonym Storage = "(string \<times> StoredValue) list"

definition getItem :: "string \<Rightarrow> Storage \<Rightarrow> StoredValue option" where
  "getItem k st = map_of st k"

definition setItem :: "string \<Rightarrow> StoredValue \<Rightarrow> Storage \<Rightarrow> Storage" where
  "setItem k v st =
     (if k \<in> fst ` set st then map (\<lambda>(k', v'). if k' = k then (k', v) else (k', v')) st
      else st @ [(k, v)])"

definition removeItem :: "string \<Rightarrow> Storage \<Rightarrow> Storage" where
  "removeItem k st = filter (\<lambda>(k', v'). k' \<noteq> k) st"

definition storageKey :: "nat \<Rightarrow> Storage \<Rightarrow> string option" where
  "storageKey i st = (if i < length st then Some (fst (st ! i)) else None)"

text \<open>\<^verbatim>\<open>JSON.parse\<close> at the three types; \<open>None\<close> is the exception.\<close>

fun parseStream :: "StoredValue \<Rightarrow> StreamData option" where
  "parseStream (VStream s) = Some s"
| "parseStream _ = None"

fun parseStreams :: "StoredValue \<Rightarrow> StreamData list option" where
  "parseStreams (VStreams xs) = Some xs"
| "parseStreams _ = None"

fun parseChat :: "StoredValue \<Rightarrow> ChatMessage list option" where
  "parseChat (VChat ms) = Some ms"
| "parseChat _ = None"

text \<open>The three kinds of keys.\<close>

definition stream_prefix :: string where
  "stream_prefix = ''pandapi_stream_''"

definition stream_key :: "string \<Rightarrow> string" where
  "stream_key i = ''pandapi_stream_'' @ i"

definition chat_key :: "string \<Rightarrow> string" where
  "chat_key i = ''pandapi_chat_'' @ i"

definition global_key :: string where
  "global_key = ''pandapi_global_streams''"

definition chat_prefix :: string where
  "chat_prefix = ''pandapi_chat_''"

subsection \<open>Chat\<close>

text \<open>\<^verbatim>\<open>xs.slice(-100)\<close>: the last 100 elements, all of them when there are fewer.\<close>

definition slice_last :: "nat \<Rightarrow> 'a list \<Rightarrow> 'a list" where
  "slice_last n xs = drop (length xs - n) xs"

text \<open>
  \<^verbatim>\<open>getChatMessages\<close> (lines 449-457): a missing or empty text gives \<^verbatim>\<open>[]\<close>, and so does
  the \<^verbatim>\<open>catch\<close> when \<^verbatim>\<open>JSON.parse\<close> throws. The storage is only read.
\<close>

definition getChatMessages :: "string \<Rightarrow> Storage \<Rightarrow> ChatMessage list" where
  "getChatMessages streamId' st =
     (case getItem (chat_key streamId') st of
        None \<Rightarrow> []
      | Some v \<Rightarrow>
          if v = Empty then []
          else (case parseChat v of None \<Rightarrow> [] | Some ms \<Rightarrow> ms))"

text \<open>The message object built at lines 420-428.\<close>

definition chatMessage :: "string \<Rightarrow> string \<Rightarrow> string \<Rightarrow> string option \<Rightarrow> int \<Rightarrow> string
    \<Rightarrow> ChatMessage" where
  "chatMessage streamId' sender' message' senderAddress' now newId =
     \<lparr> mid = newId, streamId = streamId', sender = sender', senderAddress = senderAddress',
       message = message', timestamp = now, mtype = Message \<rparr>"

text \<open>
  The spread \<^verbatim>\<open>[...existingMessages, m]\<close> of lines 432, 479 and 510, where
  \<^verbatim>\<open>existingMessages\<close> is what \<^verbatim>\<open>getChatMessages\<close> has returned: \<^verbatim>\<open>[]\<close> for a missing
  or empty text and from its \<^verbatim>\<open>catch\<close>, and otherwise the value \<^verbatim>\<open>JSON.parse\<close> made of
  the text, whatever its shape. Spreading a value that is not an array throws a
  \<^verbatim>\<open>TypeError\<close>, which is \<open>None\<close> here. Of the stored values, \<open>VStream\<close> is the text of
  an object that is not an array. (\<open>VStreams\<close> under a chat key is the text of an array
  whose entries are not messages; it is read at the type \<^verbatim>\<open>ChatMessage[]\<close> as by
  \<open>getChatMessages\<close>. A typed storage has no such value.)
\<close>

definition spreadMessages :: "string \<Rightarrow> Storage \<Rightarrow> ChatMessage list option" where
  "spreadMessages streamId' st =
     (case getItem (chat_key streamId') st of
        Some (VStream s) \<Rightarrow> None
      | _ \<Rightarrow> Some (getChatMessages streamId' st))"

text \<open>
  \<^verbatim>\<open>sendMessage\<close> (lines 418-446). The whole body is in a \<^verbatim>\<open>try\<close> block whose
  \<^verbatim>\<open>catch\<close> returns \<^verbatim>\<open>false\<close>. With a \<^verbatim>\<open>localStorage\<close> that accepts every write the
  spread is the one statement of the body that can throw, and when it does, nothing has
  been written.
\<close>

definition sendMessage :: "string \<Rightarrow> string \<Rightarrow> string \<Rightarrow> string option \<Rightarrow> int \<Rightarrow> string
    \<Rightarrow> Storage \<Rightarrow> bool \<times> Storage" where
  "sendMessage streamId' sender' message' senderAddress' now newId st =
     (let chatMessage' = chatMessage streamId' sender' message' senderAddress' now newId
      in case spreadMessages streamId' st of
           None \<Rightarrow> (False, st)
         | Some existingMessages \<Rightarrow>
             (let updatedMessages = slice_last 100 (existingMessages @ [chatMessage'])
              in (True, setItem (chat_key streamId') (VChat updatedMessages) st)))"

subsection \<open>Reconciliation: getAllStreamsFromStorage\<close>

text \<open>\<^verbatim>\<open>const maxAge = 24 * 60 * 60 * 1000\<close>\<close>

definition maxAge :: int where
  "maxAge = 24 * 60 * 60 * 1000"

text \<open>
  The state of one run: the storage, the array \<^verbatim>\<open>streams\<close> and the set \<^verbatim>\<open>streamIds\<close>.
\<close>

type_synonym ScanState = "Storage \<times> StreamData list \<times> string set"

text \<open>
  The body of \<^verbatim>\<open>parsedStreams.forEach\<close> (lines 157-188), for one entry of the global
  list. The age tested is the one of the list entry; the record pushed is the one read from
  the individual key, and the id remembered is the one of the list entry.
\<close>

definition index_step :: "int \<Rightarrow> StreamData \<Rightarrow> ScanState \<Rightarrow> ScanState" where
  "index_step now stream = (\<lambda>(st, streams, streamIds).
     (let streamAge = now - startTime stream in
      if isLive stream \<and> sid stream \<noteq> [] \<and> sid stream \<notin> streamIds \<and> streamAge < maxAge
      then
        (case getItem (stream_key (sid stream)) st of
           None \<Rightarrow> (st, streams, streamIds)
         | Some individualStream \<Rightarrow>
             if individualStream = Empty then (st, streams, streamIds)
             else
               (case parseStream individualStream of
                  None \<Rightarrow> (removeItem (stream_key (sid stream)) st, streams, streamIds)
                | Some verifiedStream \<Rightarrow>
                    if isLive verifiedStream
                    then (st, streams @ [verifiedStream], insert (sid stream) streamIds)
                    else (st, streams, streamIds)))
      else if streamAge \<ge> maxAge
      then (removeItem (stream_key (sid stream)) st, streams, streamIds)
      else (st, streams, streamIds)))"

text \<open>
  Method 1 (lines 153-192): nothing happens when the global list is missing, empty text or
  does not parse (the inner \<^verbatim>\<open>catch\<close>).
\<close>

definition index_pass :: "int \<Rightarrow> ScanState \<Rightarrow> ScanState" where
  "index_pass now s0 =
     (case getItem global_key (fst s0) of
        None \<Rightarrow> s0
      | Some globalStreams \<Rightarrow>
          if globalStreams = Empty then s0
          else
            (case parseStreams globalStreams of
               None \<Rightarrow> s0
             | Some parsedStreams \<Rightarrow> fold (index_step now) parsedStreams s0))"

text \<open>
  The body of the \<^verbatim>\<open>for\<close> loop of method 2 for a key with the stream prefix
  (lines 198-219); the \<^verbatim>\<open>catch\<close> removes the key.
\<close>

definition scan_step :: "int \<Rightarrow> string \<Rightarrow> ScanState \<Rightarrow> ScanState" where
  "scan_step now k = (\<lambda>(st, streams, streamIds).
     (case getItem k st of
        None \<Rightarrow> (st, streams, streamIds)
      | Some streamData \<Rightarrow>
          if streamData = Empty then (st, streams, streamIds)
          else
            (case parseStream streamData of
               None \<Rightarrow> (removeItem k st, streams, streamIds)
             | Some stream \<Rightarrow>
                 (let streamAge = now - startTime stream in
                  if isLive stream \<and> sid stream \<noteq> [] \<and> sid stream \<notin> streamIds
                     \<and> streamAge < maxAge
                  then (st, streams @ [stream], insert (sid stream) streamIds)
                  else if \<not> isLive stream \<or> streamAge \<ge> maxAge
                  then (removeItem k st, streams, streamIds)
                  else (st, streams, streamIds)))))"

lemma length_removeItem: "length (removeItem k st) \<le> length st"
  by (simp add: removeItem_def)

lemma length_scan_step: "length (fst (scan_step now k (st, streams, ids))) \<le> length st"
  by (auto simp: scan_step_def Let_def length_removeItem split: option.splits)

text \<open>
  The loop \<^verbatim>\<open>for (let i = 0; i < localStorage.length; i++)\<close> (lines 195-221): the bound
  and the key at index \<open>i\<close> (\<open>fst (st ! i)\<close>, which is \<open>storageKey i st\<close>) are read from
  the storage as it is at that iteration, after the removals of the iterations before.
\<close>

function scan :: "int \<Rightarrow> nat \<Rightarrow> ScanState \<Rightarrow> ScanState" where
  "scan now i (st, streams, streamIds) =
     (if i < length st
      then
        (if prefix stream_prefix (fst (st ! i))
         then scan now (Suc i) (scan_step now (fst (st ! i)) (st, streams, streamIds))
         else scan now (Suc i) (st, streams, streamIds))
      else (st, streams, streamIds))"
  by pat_completeness auto
termination
proof (relation "measure (\<lambda>(now, i, s). length (fst s) - i)")
  show "wf (measure (\<lambda>(now, i, s). length (fst s) - i))"
    by simp
next
  fix now :: int and i :: nat and st :: Storage and streams :: "StreamData list"
    and streamIds :: "string set"
  assume "i < length st"
  moreover have "length (fst (scan_step now (fst (st ! i)) (st, streams, streamIds))) \<le> length st"
    by (rule length_scan_step)
  ultimately show "((now, Suc i, scan_step now (fst (st ! i)) (st, streams, streamIds)),
      (now, i, (st, streams, streamIds))) \<in> measure (\<lambda>(now, i, s). length (fst s) - i)"
    by simp
next
  fix now :: int and i :: nat and st :: Storage and streams :: "StreamData list"
    and streamIds :: "string set"
  assume "i < length st"
  then show "((now, Suc i, (st, streams, streamIds)), (now, i, (st, streams, streamIds)))
      \<in> measure (\<lambda>(now, i, s). length (fst s) - i)"
    by simp
qed

text \<open>The equation of \<open>scan\<close> is unfolded by hand, one iteration at a time.\<close>

declare scan.simps [simp del]

text \<open>
  \<^verbatim>\<open>getAllStreamsFromStorage\<close> (lines 146-236): method 1, method 2, then the global list is
  rewritten with the live streams found, which are returned.
\<close>

definition getAllStreamsFromStorage :: "int \<Rightarrow> Storage \<Rightarrow> StreamData list \<times> Storage" where
  "getAllStreamsFromStorage currentTime st =
     (case scan currentTime 0 (index_pass currentTime (st, [], {})) of
        (st', streams, streamIds) \<Rightarrow>
          (let liveStreams = filter isLive streams
           in (filter isLive streams, setItem global_key (VStreams liveStreams) st')))"

text \<open>\<^verbatim>\<open>getAllActiveStreams\<close> (lines 386-388).\<close>

definition getAllActiveStreams :: "int \<Rightarrow> Storage \<Rightarrow> StreamData list \<times> Storage" where
  "getAllActiveStreams now st = getAllStreamsFromStorage now st"

subsection \<open>Writing streams\<close>

text \<open>
  \<^verbatim>\<open>storeStream\<close> (lines 277-309): the individual key, then the global list without an
  entry of the same id and, for a live stream, with the stream at its end. A global list
  that is missing, empty text or does not parse counts as \<^verbatim>\<open>[]\<close>.
\<close>

definition storeStream :: "StreamData \<Rightarrow> Storage \<Rightarrow> Storage" where
  "storeStream stream st =
     (let st1 = setItem (stream_key (sid stream)) (VStream stream) st;
          globalStreams =
            (case getItem global_key st1 of
               None \<Rightarrow> []
             | Some existingGlobalStreams \<Rightarrow>
                 if existingGlobalStreams = Empty then []
                 else (case parseStreams existingGlobalStreams of None \<Rightarrow> [] | Some xs \<Rightarrow> xs));
          globalStreams' = filter (\<lambda>s. sid s \<noteq> sid stream) globalStreams;
          globalStreams'' = (if isLive stream then globalStreams' @ [stream] else globalStreams')
      in setItem global_key (VStreams globalStreams'') st1)"

text \<open>\<^verbatim>\<open>{ ...stream, ...updates, lastUpdate: Date.now() }\<close> (lines 317-321).\<close>

definition mergeUpdates :: "StreamData \<Rightarrow> StreamDataPartial \<Rightarrow> int \<Rightarrow> StreamData" where
  "mergeUpdates stream updates now =
     \<lparr> sid = (case p_sid updates of None \<Rightarrow> sid stream | Some x \<Rightarrow> x),
       title = (case p_title updates of None \<Rightarrow> title stream | Some x \<Rightarrow> x),
       category = (case p_category updates of None \<Rightarrow> category stream | Some x \<Rightarrow> x),
       topic = (case p_topic updates of None \<Rightarrow> topic stream | Some x \<Rightarrow> x),
       streamerAddress =
         (case p_streamerAddress updates of None \<Rightarrow> streamerAddress stream | Some x \<Rightarrow> x),
       isLive = (case p_isLive updates of None \<Rightarrow> isLive stream | Some x \<Rightarrow> x),
       viewerCount = (case p_viewerCount updates of None \<Rightarrow> viewerCount stream | Some x \<Rightarrow> x),
       startTime = (case p_startTime updates of None \<Rightarrow> startTime stream | Some x \<Rightarrow> x),
       moderators = (case p_moderators updates of None \<Rightarrow> moderators stream | Some x \<Rightarrow> x),
       lastUpdate = now \<rparr>"

text \<open>
  \<^verbatim>\<open>updateStream\<close> (lines 312-333): \<^verbatim>\<open>false\<close> when the individual key is missing or
  empty text, and when \<^verbatim>\<open>JSON.parse\<close> throws (the \<^verbatim>\<open>catch\<close> only logs).
\<close>

definition updateStream :: "int \<Rightarrow> string \<Rightarrow> StreamDataPartial \<Rightarrow> Storage \<Rightarrow> bool \<times> Storage" where
  "updateStream now streamId' updates st =
     (case getItem (stream_key streamId') st of
        None \<Rightarrow> (False, st)
      | Some existingData \<Rightarrow>
          if existingData = Empty then (False, st)
          else
            (case parseStream existingData of
               None \<Rightarrow> (False, st)
             | Some stream \<Rightarrow> (True, storeStream (mergeUpdates stream updates now) st)))"

text \<open>
  \<^verbatim>\<open>endStream\<close> (lines 336-383), up to the removal of the two keys. The reconciliation
  that the timer runs 50 ms later is a call of \<^verbatim>\<open>getAllStreamsFromStorage\<close> of its own.
\<close>

definition endStream :: "int \<Rightarrow> string \<Rightarrow> Storage \<Rightarrow> Storage" where
  "endStream now streamId' st =
     (let st1 = snd (updateStream now streamId' (noUpdates\<lparr>p_isLive := Some False\<rparr>) st);
          st2 =
            (case getItem global_key st1 of
               None \<Rightarrow> st1
             | Some globalStreamsData \<Rightarrow>
                 if globalStreamsData = Empty then st1
                 else
                   (case parseStreams globalStreamsData of
                      None \<Rightarrow> st1
                    | Some globalStreams \<Rightarrow>
                        setItem global_key
                          (VStreams (filter (\<lambda>s. sid s \<noteq> streamId') globalStreams)) st1));
          st3 = removeItem (stream_key streamId') st2
      in removeItem (chat_key streamId') st3)"

subsection \<open>Viewers\<close>

text \<open>The system message of lines 469-476 and 500-507.\<close>

definition systemMessage :: "MessageType \<Rightarrow> string \<Rightarrow> string \<Rightarrow> int \<Rightarrow> string \<Rightarrow> ChatMessage" where
  "systemMessage ty streamId' text' now newId =
     \<lparr> mid = newId, streamId = streamId', sender = ''System'', senderAddress = None,
       message = text', timestamp = now, mtype = ty \<rparr>"

text \<open>
  \<^verbatim>\<open>joinStream\<close> (lines 460-489). The lookup is a call of \<^verbatim>\<open>getAllActiveStreams\<close>, which
  writes the storage; the result of \<^verbatim>\<open>updateStream\<close> is not looked at. The function has
  no \<^verbatim>\<open>try\<close> block: when the spread of line 479 throws, the exception leaves the call
  after \<^verbatim>\<open>updateStream\<close> has written. The argument \<^verbatim>\<open>viewerAddress\<close> only goes into the
  event data and is left out.
\<close>

definition joinStream :: "string \<Rightarrow> string \<Rightarrow> int \<Rightarrow> string \<Rightarrow> Storage
    \<Rightarrow> (error + bool) \<times> Storage" where
  "joinStream streamId' viewerName now newId st =
     (case getAllActiveStreams now st of
        (active, st1) \<Rightarrow>
          (case find (\<lambda>s. sid s = streamId') active of
             None \<Rightarrow> (Inr False, st1)
           | Some stream \<Rightarrow>
               (let st2 = snd (updateStream now streamId'
                            (noUpdates\<lparr>p_viewerCount :=
                               Some (roundDouble (viewerCount stream + 1))\<rparr>) st1);
                    joinMessage = systemMessage Join streamId'
                            (viewerName @ '' joined the stream'') now newId
                in case spreadMessages streamId' st2 of
                     None \<Rightarrow> (Inl TypeError, st2)
                   | Some existingMessages \<Rightarrow>
                       (let updatedMessages = slice_last 100 (existingMessages @ [joinMessage])
                        in (Inr True,
                            setItem (chat_key streamId') (VChat updatedMessages) st2)))))"

text \<open>\<^verbatim>\<open>leaveStream\<close> (lines 492-520), with the spread at line 510.\<close>

definition leaveStream :: "string \<Rightarrow> string \<Rightarrow> int \<Rightarrow> string \<Rightarrow> Storage
    \<Rightarrow> (error + bool) \<times> Storage" where
  "leaveStream streamId' viewerName now newId st =
     (case getAllActiveStreams now st of
        (active, st1) \<Rightarrow>
          (case find (\<lambda>s. sid s = streamId') active of
             None \<Rightarrow> (Inr False, st1)
           | Some stream \<Rightarrow>
               (let st2 = snd (updateStream now streamId'
                            (noUpdates\<lparr>p_viewerCount :=
                               Some (max 0 (roundDouble (viewerCount stream - 1)))\<rparr>) st1);
                    leaveMessage = systemMessage Leave streamId'
                            (viewerName @ '' left the stream'') now newId
                in case spreadMessages streamId' st2 of
                     None \<Rightarrow> (Inl TypeError, st2)
                   | Some existingMessages \<Rightarrow>
                       (let updatedMessages = slice_last 100 (existingMessages @ [leaveMessage])
                        in (Inr True,
                            setItem (chat_key streamId') (VChat updatedMessages) st2)))))"

subsection \<open>Broadcast handlers\<close>

text \<open>
  \<^verbatim>\<open>storeStreamFromBroadcast\<close> (lines 550-563): only a live stream with an id, and only
  when its individual key is missing or empty text.
\<close>

definition storeStreamFromBroadcast :: "StreamData \<Rightarrow> Storage \<Rightarrow> Storage" where
  "storeStreamFromBroadcast stream st =
     (if isLive stream \<and> sid stream \<noteq> []
      then
        (case getItem (stream_key (sid stream)) st of
           None \<Rightarrow> storeStream stream st
         | Some existingStream \<Rightarrow>
             if existingStream = Empty then storeStream stream st else st)
      else st)"

text \<open>
  \<^verbatim>\<open>removeStreamFromBroadcast\<close> (lines 565-581): the two keys are removed first; when the
  global list does not parse, the \<^verbatim>\<open>catch\<close> leaves it as it is.
\<close>

definition removeStreamFromBroadcast :: "string \<Rightarrow> Storage \<Rightarrow> Storage" where
  "removeStreamFromBroadcast streamId' st =
     (let st1 = removeItem (stream_key streamId') st;
          st2 = removeItem (chat_key streamId') st1
      in (case getItem global_key st2 of
            None \<Rightarrow> st2
          | Some globalStreamsData \<Rightarrow>
              if globalStreamsData = Empty then st2
              else
                (case parseStreams globalStreamsData of
                   None \<Rightarrow> st2
                 | Some globalStreams \<Rightarrow>
                     setItem global_key
                       (VStreams (filter (\<lambda>s. sid s \<noteq> streamId') globalStreams)) st2)))"

text \<open>
  \<^verbatim>\<open>syncStreams\<close> (lines 134-144): a reconciliation, whose result goes to the listeners of
  \<^verbatim>\<open>streamsUpdated\<close>.
\<close>

definition syncStreams :: "int \<Rightarrow> Storage \<Rightarrow> Storage" where
  "syncStreams now st = snd (getAllStreamsFromStorage now st)"

text \<open>
  The listener of the broadcast channel (lines 80-112). For a \<^verbatim>\<open>streamCreated\<close> and a
  \<^verbatim>\<open>streamEnded\<close> message it calls the helper, emits the event and calls
  \<^verbatim>\<open>syncStreams\<close>, all in the same call. A \<^verbatim>\<open>syncRequest\<close> runs a reconciliation (the
  answer is posted to the channel). A \<^verbatim>\<open>syncResponse\<close> of another window stores each of
  the streams it carries and calls \<^verbatim>\<open>syncStreams\<close>; one of this window, and a message of
  any other type, does nothing.
\<close>

datatype BroadcastMessage =
    StreamCreatedMessage StreamData
  | StreamEndedMessage string
  | SyncRequestMessage
  | SyncResponseMessage string "StreamData list"
  | OtherMessage

fun onMessage :: "string \<Rightarrow> int \<Rightarrow> BroadcastMessage \<Rightarrow> Storage \<Rightarrow> Storage" where
  "onMessage windowId now (StreamCreatedMessage stream) st =
     syncStreams now (storeStreamFromBroadcast stream st)"
| "onMessage windowId now (StreamEndedMessage streamId') st =
     syncStreams now (removeStreamFromBroadcast streamId' st)"
| "onMessage windowId now SyncRequestMessage st = snd (getAllStreamsFromStorage now st)"
| "onMessage windowId now (SyncResponseMessage sender' streams) st =
     (if sender' \<noteq> windowId
      then syncStreams now (fold storeStreamFromBroadcast streams st)
      else st)"
| "onMessage windowId now OtherMessage st = st"

subsection \<open>The event hub\<close>

text \<open>
  A subscriber callback runs on the state \<open>'w\<close> of the subscribers (it does not re-enter
  the registry) and either returns or throws; in both cases it leaves a state behind.
  \<open>'d\<close> is the type of the event data.
\<close>

datatype 'w Outcome = Returned 'w | Threw 'w

fun stateOf :: "'w Outcome \<Rightarrow> 'w" where
  "stateOf (Returned w) = w"
| "stateOf (Threw w) = w"

fun threw :: "'w Outcome \<Rightarrow> bool" where
  "threw (Returned w) = False"
| "threw (Threw w) = True"

type_synonym ('d, 'w) Callback = "'d \<Rightarrow> 'w \<Rightarrow> 'w Outcome"

text \<open>\<^verbatim>\<open>private listeners: Map<string, Function[]>\<close>\<close>

type_synonym ('d, 'w) Listeners = "string \<rightharpoonup> ('d, 'w) Callback list"

text \<open>The state an emission runs in: the subscribers' state and the console's error lines.\<close>

record 'w Env =
  world :: 'w
  console :: "string list"

text \<open>\<^verbatim>\<open>on\<close> (lines 523-528): the callback goes to the end of the event's array.\<close>

definition on :: "string \<Rightarrow> ('d, 'w) Callback \<Rightarrow> ('d, 'w) Listeners \<Rightarrow> ('d, 'w) Listeners" where
  "on event callback ls =
     (let ls' = (if ls event = None then ls(event \<mapsto> []) else ls)
      in ls'(event \<mapsto> (case ls' event of None \<Rightarrow> [] | Some cs \<Rightarrow> cs) @ [callback]))"

text \<open>
  \<^verbatim>\<open>Array.prototype.forEach\<close>: the function is applied to the elements in order, and an
  exception thrown by it ends the iteration and leaves \<^verbatim>\<open>forEach\<close>.
\<close>

fun forEach :: "('a \<Rightarrow> 'e \<Rightarrow> 'e Outcome) \<Rightarrow> 'a list \<Rightarrow> 'e \<Rightarrow> 'e Outcome" where
  "forEach f [] e = Returned e"
| "forEach f (x # xs) e =
     (case f x e of Returned e' \<Rightarrow> forEach f xs e' | Threw e' \<Rightarrow> Threw e')"

text \<open>
  The arrow function of lines 540-546: \<^verbatim>\<open>try { listener(data) } catch (error) {
  console.error(...) }\<close>.
\<close>

definition guardedCall :: "'d \<Rightarrow> ('d, 'w) Callback \<Rightarrow> 'w Env \<Rightarrow> 'w Env Outcome" where
  "guardedCall data listener e =
     (case listener data (world e) of
        Returned w \<Rightarrow> Returned (e\<lparr>world := w\<rparr>)
      | Threw w \<Rightarrow>
          Returned (e\<lparr>world := w, console := console e @ [''Error in event listener:'']\<rparr>))"

text \<open>\<^verbatim>\<open>triggerListeners\<close> (lines 538-547).\<close>

definition triggerListeners :: "('d, 'w) Listeners \<Rightarrow> string \<Rightarrow> 'd \<Rightarrow> 'w Env \<Rightarrow> 'w Env Outcome" where
  "triggerListeners ls event data e =
     (let listeners = (case ls event of None \<Rightarrow> [] | Some cs \<Rightarrow> cs)
      in forEach (guardedCall data) listeners e)"

subsection \<open>Specification vocabulary\<close>

text \<open>The decoded global list; \<open>[]\<close> when the key is missing or does not decode.\<close>

definition indexOf :: "Storage \<Rightarrow> StreamData list" where
  "indexOf st = (case getItem global_key st of Some (VStreams xs) \<Rightarrow> xs | _ \<Rightarrow> [])"

text \<open>
  The values for which the loop body of method 2 removes the key: text that does not decode,
  and a record that is not live or is 24 hours old. (A live record younger than that is kept,
  pushed or not.)
\<close>

definition doomed :: "int \<Rightarrow> StoredValue \<Rightarrow> bool" where
  "doomed now v =
     (v \<noteq> Empty \<and>
      (case parseStream v of None \<Rightarrow> True
       | Some s \<Rightarrow> \<not> isLive s \<or> now - startTime s \<ge> maxAge))"

text \<open>
  The keys a reconciliation may delete: a stream key whose value is doomed, or that an entry
  of the global list names whose own \<^verbatim>\<open>startTime\<close> is 24 hours old.
\<close>

definition removable :: "int \<Rightarrow> Storage \<Rightarrow> string \<Rightarrow> bool" where
  "removable now st k =
     (prefix stream_prefix k \<and>
      ((\<exists>e \<in> set (indexOf st). k = stream_key (sid e) \<and> now - startTime e \<ge> maxAge)
       \<or> (case getItem k st of None \<Rightarrow> False | Some v \<Rightarrow> doomed now v)))"

text \<open>
  The two ways a record gets into the result: through an entry of the global list that is
  live, has an id and is younger than 24 hours (method 1 tests the age of the entry, not of
  the record), or by the scan, which tests the record itself.
\<close>

definition vouched :: "int \<Rightarrow> Storage \<Rightarrow> StreamData \<Rightarrow> bool" where
  "vouched now st r =
     (\<exists>e \<in> set (indexOf st). isLive e \<and> sid e \<noteq> [] \<and> now - startTime e < maxAge
        \<and> getItem (stream_key (sid e)) st = Some (VStream r))"

definition scanned :: "int \<Rightarrow> Storage \<Rightarrow> StreamData \<Rightarrow> bool" where
  "scanned now st r =
     (sid r \<noteq> [] \<and> now - startTime r < maxAge
      \<and> (\<exists>k \<in> fst ` set st. prefix stream_prefix k \<and> getItem k st = Some (VStream r)))"

text \<open>
  The invariant of a reconciliation that started in \<open>st0\<close>: every key still has the
  value it had or has been deleted for a reason, and every record pushed is live and was
  stored.
\<close>

definition tracks :: "int \<Rightarrow> Storage \<Rightarrow> ScanState \<Rightarrow> bool" where
  "tracks now st0 s =
     ((\<forall>k. getItem k (fst s) = getItem k st0
           \<or> (getItem k (fst s) = None \<and> removable now st0 k))
      \<and> (\<forall>r \<in> set (fst (snd s)). isLive r \<and> (vouched now st0 r \<or> scanned now st0 r)))"

text \<open>
  Every write of the registry puts a record under the key of its own id
  (\<^verbatim>\<open>`pandapi_stream_${stream.id}`\<close>). A storage is well keyed when every stream
  record in it is stored that way.
\<close>

definition keyedEntry :: "string \<times> StoredValue \<Rightarrow> bool" where
  "keyedEntry = (\<lambda>(k, v). case v of VStream s \<Rightarrow> k = stream_key (sid s) | _ \<Rightarrow> True)"

definition wellKeyed :: "Storage \<Rightarrow> bool" where
  "wellKeyed st = list_all keyedEntry st"

text \<open>Successive calls of \<^verbatim>\<open>getAllActiveStreams\<close>, at the given times.\<close>

fun reconciles :: "int list \<Rightarrow> Storage \<Rightarrow> Storage" where
  "reconciles [] st = st"
| "reconciles (t # ts) st = reconciles ts (snd (getAllActiveStreams t st))"

text \<open>A stream record for the concrete instances below.\<close>

definition demoStream :: "string \<Rightarrow> bool \<Rightarrow> int \<Rightarrow> StreamData" where
  "demoStream i l t = \<lparr> sid = i, title = ''Test'', category = ''Gaming'', topic = ''demo'',
     streamerAddress = ''0xabc'', isLive = l, viewerCount = 0, startTime = t,
     moderators = [], lastUpdate = t \<rparr>"

text \<open>The individual key of an id holds a record that decodes.\<close>

definition hasRecord :: "string \<Rightarrow> Storage \<Rightarrow> bool" where
  "hasRecord i st = (case getItem (stream_key i) st of Some (VStream s) \<Rightarrow> True | _ \<Rightarrow> False)"

text \<open>A transcript is capped when it has at most 100 entries.\<close>

definition cappedEntry :: "string \<times> StoredValue \<Rightarrow> bool" where
  "cappedEntry = (\<lambda>(k, v). case v of VChat ms \<Rightarrow> length ms \<le> 100 | _ \<Rightarrow> True)"

definition chatCapped :: "Storage \<Rightarrow> bool" where
  "chatCapped st = list_all cappedEntry st"

text \<open>The three operations that write a transcript, and sequences of them.\<close>

datatype ChatOp =
    SendMessage string string string "string option" int string
  | JoinStream string string int string
  | LeaveStream string string int string

fun applyOp :: "ChatOp \<Rightarrow> Storage \<Rightarrow> Storage" where
  "applyOp (SendMessage i sender' msg addr now newId) st =
     snd (sendMessage i sender' msg addr now newId st)"
| "applyOp (JoinStream i viewer now newId) st = snd (joinStream i viewer now newId st)"
| "applyOp (LeaveStream i viewer now newId) st = snd (leaveStream i viewer now newId st)"

definition applyOps :: "ChatOp list \<Rightarrow> Storage \<Rightarrow> Storage" where
  "applyOps ops st = fold applyOp ops st"

text \<open>
  The arguments of one \<^verbatim>\<open>sendMessage\<close> call to a fixed stream (sender, message, sender
  address, clock, generated id), the message it builds, and a sequence of such calls.
\<close>

type_synonym SendArgs = "string \<times> string \<times> string option \<times> int \<times> string"

definition messageOf :: "string \<Rightarrow> SendArgs \<Rightarrow> ChatMessage" where
  "messageOf i = (\<lambda>(sender', msg, addr, now, newId). chatMessage i sender' msg addr now newId)"

definition sendMessages :: "string \<Rightarrow> SendArgs list \<Rightarrow> Storage \<Rightarrow> Storage" where
  "sendMessages i reqs st =
     fold (\<lambda>(sender', msg, addr, now, newId) st'.
             snd (sendMessage i sender' msg addr now newId st')) reqs st"

text \<open>
  An instance: a join, a message and a leave on a live stream, and 150 numbered messages
  sent to it.
\<close>

definition numbered :: "nat \<Rightarrow> SendArgs" where
  "numbered n = (''Alice'', replicate n CHR ''x'', None, int n, replicate n CHR ''m'')"

text \<open>
  The callbacks registered for an event, in the order of the array, and the state that
  calling each of them once, in that order, leaves: each callback runs on the state the one
  before it left, whether that one returned or threw.
\<close>

definition listenersOf :: "('d, 'w) Listeners \<Rightarrow> string \<Rightarrow> ('d, 'w) Callback list" where
  "listenersOf ls event = (case ls event of None \<Rightarrow> [] | Some cs \<Rightarrow> cs)"

definition invokeAll :: "'d \<Rightarrow> ('d, 'w) Callback list \<Rightarrow> 'w \<Rightarrow> 'w" where
  "invokeAll data cs w = fold (\<lambda>c w'. stateOf (c data w')) cs w"

text \<open>Two subscribers for the instance below: the first throws, the second returns.\<close>

definition failingSubscriber :: "(string, string list) Callback" where
  "failingSubscriber data w = Threw (w @ [''first saw '' @ data])"

definition secondSubscriber :: "(string, string list) Callback" where
  "secondSubscriber data w = Returned (w @ [''second saw '' @ data])"

text \<open>A key is occupied when a non-empty text is stored under it.\<close>

definition occupied :: "string \<Rightarrow> Storage \<Rightarrow> bool" where
  "occupied k st = (case getItem k st of None \<Rightarrow> False | Some v \<Rightarrow> v \<noteq> Empty)"

text \<open>The global list is stored and decodes.\<close>

definition indexDecodes :: "Storage \<Rightarrow> bool" where
  "indexDecodes st = (case getItem global_key st of Some (VStreams xs) \<Rightarrow> True | _ \<Rightarrow> False)"

text \<open>
  \<^verbatim>\<open>storeStream\<close> writes the same object under the individual key and into the global
  list, so an entry of the list and the record of its id carry the same \<^verbatim>\<open>startTime\<close>.
  The global list agrees with the records when this holds for every entry whose id has a
  record.
\<close>

definition indexAgrees :: "Storage \<Rightarrow> bool" where
  "indexAgrees st =
     list_all (\<lambda>e. case getItem (stream_key (sid e)) st of
                      Some (VStream s) \<Rightarrow> startTime e = startTime s
                    | _ \<Rightarrow> True) (indexOf st)"

text \<open>The individual key of the id holds a live record younger than 24 hours.\<close>

definition activeRecord :: "int \<Rightarrow> string \<Rightarrow> Storage \<Rightarrow> bool" where
  "activeRecord now i st =
     (case getItem (stream_key i) st of
        Some (VStream s) \<Rightarrow> isLive s \<and> now - startTime s < maxAge
      | _ \<Rightarrow> False)"

text \<open>Every stored stream record has a viewer count that is not negative.\<close>

definition nonnegEntry :: "string \<times> StoredValue \<Rightarrow> bool" where
  "nonnegEntry = (\<lambda>(k, v). case v of VStream s \<Rightarrow> 0 \<le> viewerCount s | _ \<Rightarrow> True)"

definition countsNonneg :: "Storage \<Rightarrow> bool" where
  "countsNonneg st = list_all nonnegEntry st"

text \<open>
  The arguments of one \<^verbatim>\<open>leaveStream\<close> call (stream id, viewer name, clock, generated
  id), and a sequence of such calls.
\<close>

type_synonym ViewerArgs = "string \<times> string \<times> int \<times> string"

definition leaveStreams :: "ViewerArgs list \<Rightarrow> Storage \<Rightarrow> Storage" where
  "leaveStreams calls st =
     fold (\<lambda>(i, viewer, now, newId) st'. snd (leaveStream i viewer now newId st')) calls st"

text \<open>
  The key at index \<open>m\<close> is a stream key whose value the scan deletes; and index \<open>j\<close> is the
  first such index of the storage.
\<close>

definition doomedAt :: "int \<Rightarrow> Storage \<Rightarrow> nat \<Rightarrow> bool" where
  "doomedAt now st m =
     (prefix stream_prefix (fst (st ! m)) \<and>
      (case getItem (fst (st ! m)) st of None \<Rightarrow> False | Some v \<Rightarrow> doomed now v))"

definition firstDoomed :: "int \<Rightarrow> Storage \<Rightarrow> nat \<Rightarrow> bool" where
  "firstDoomed now st j =
     (j < length st \<and> doomedAt now st j \<and> list_all (\<lambda>m. \<not> doomedAt now st m) [0..<j])"

text \<open>
  Every individual stream key holds a live record younger than 24 hours: a reconciliation
  has nothing to delete.
\<close>

definition allActive :: "int \<Rightarrow> Storage \<Rightarrow> bool" where
  "allActive now st =
     list_all (\<lambda>(k, v). prefix stream_prefix k \<longrightarrow>
                 (case getItem k st of
                    Some (VStream s) \<Rightarrow> isLive s \<and> now - startTime s < maxAge
                  | _ \<Rightarrow> False)) st"

text \<open>
  During a reconciliation that deletes nothing: the storage is still \<open>st\<close>, and every id
  in \<^verbatim>\<open>streamIds\<close> is the id of a key whose record is in \<^verbatim>\<open>streams\<close>.
\<close>

definition cleanState :: "Storage \<Rightarrow> ScanState \<Rightarrow> bool" where
  "cleanState st s =
     (fst s = st \<and>
      (\<forall>x \<in> snd (snd s). \<exists>r \<in> set (fst (snd s)). getItem (stream_key x) st = Some (VStream r)))"

text \<open>
  \<^verbatim>\<open>createStream\<close> (lines 239-275). The id \<^verbatim>\<open>`stream_${Date.now()}_${random}`\<close> is an
  argument; the fields \<^verbatim>\<open>id\<close> and \<^verbatim>\<open>lastUpdate\<close> of the argument are not part of
  \<^verbatim>\<open>Omit<StreamData, 'id' | 'lastUpdate'>\<close> and are overwritten. The storage is written by
  \<^verbatim>\<open>storeStream\<close>; the reconciliation that the timer runs 50 ms later is a call of its
  own.
\<close>

definition createStream :: "StreamData \<Rightarrow> int \<Rightarrow> string \<Rightarrow> Storage \<Rightarrow> string \<times> Storage" where
  "createStream streamData now streamId' st =
     (let stream = streamData\<lparr>sid := streamId', lastUpdate := now\<rparr>
      in (streamId', storeStream stream st))"

text \<open>
  The calls that write the storage: the public operations, the reconciliation of the
  timers, and the listener of the broadcast channel.
\<close>

datatype RegistryCall =
    Create StreamData int string
  | Update int string StreamDataPartial
  | End int string
  | Reconcile int
  | Chat ChatOp
  | Broadcast string int BroadcastMessage

fun perform :: "RegistryCall \<Rightarrow> Storage \<Rightarrow> Storage" where
  "perform (Create streamData now streamId') st = snd (createStream streamData now streamId' st)"
| "perform (Update now streamId' updates) st = snd (updateStream now streamId' updates st)"
| "perform (End now streamId') st = endStream now streamId' st"
| "perform (Reconcile now) st = snd (getAllActiveStreams now st)"
| "perform (Chat op) st = applyOp op st"
| "perform (Broadcast windowId now msg) st = onMessage windowId now msg st"

text \<open>A storage is consistent when it is well keyed and its global list agrees.\<close>

definition consistent :: "Storage \<Rightarrow> bool" where
  "consistent st = (wellKeyed st \<and> indexAgrees st)"

text \<open>The record stored under a key, if there is one, has a viewer count of 0 or more.\<close>

definition storedNonneg :: "string \<Rightarrow> Storage \<Rightarrow> bool" where
  "storedNonneg k st =
     (case getItem k st of Some (VStream s) \<Rightarrow> 0 \<le> viewerCount s | _ \<Rightarrow> True)"

text \<open>The global list has a live entry for the id.\<close>

definition listedLive :: "string \<Rightarrow> Storage \<Rightarrow> bool" where
  "listedLive i st = (\<exists>e \<in> set (indexOf st). sid e = i \<and> isLive e)"

text \<open>
  The storage with the value of a key replaced where the key occurs, which is what
  \<^verbatim>\<open>setItem\<close> does for a key that is present; and a change of the storage lifted to the
  state of a reconciliation.
\<close>

definition replaceValue :: "string \<Rightarrow> StoredValue \<Rightarrow> Storage \<Rightarrow> Storage" where
  "replaceValue k v st = map (\<lambda>(k', v'). if k' = k then (k', v) else (k', v')) st"

definition onStorage :: "(Storage \<Rightarrow> Storage) \<Rightarrow> ScanState \<Rightarrow> ScanState" where
  "onStorage f = (\<lambda>(st, streams, streamIds). (f st, streams, streamIds))"

text \<open>
  \<^verbatim>\<open>storeStream\<close> writes a live record under its key and into the global list in one
  go. A storage lists its live records when every stored live record that has an id has a
  live entry of that id in the global list.
\<close>

definition listsLive :: "Storage \<Rightarrow> bool" where
  "listsLive st =
     list_all (\<lambda>(k, v). case getItem k st of
                          Some (VStream s) \<Rightarrow> isLive s \<and> sid s \<noteq> [] \<longrightarrow> listedLive (sid s) st
                        | _ \<Rightarrow> True) st"

text \<open>
  A storage is typed when every text under one of the registry's keys has the shape its
  readers expect, or is empty, or is rejected by \<^verbatim>\<open>JSON.parse\<close>: a stream key holds no
  array, a chat key holds no stream record and no list of stream records, and the global
  key holds no single record and no transcript. Keys of other names hold anything.
\<close>

definition typedEntry :: "string \<times> StoredValue \<Rightarrow> bool" where
  "typedEntry = (\<lambda>(k, v).
     (prefix stream_prefix k \<longrightarrow>
        (case v of VStreams xs \<Rightarrow> False | VChat ms \<Rightarrow> False | _ \<Rightarrow> True))
     \<and> (prefix chat_prefix k \<longrightarrow>
        (case v of VStream s \<Rightarrow> False | VStreams xs \<Rightarrow> False | _ \<Rightarrow> True))
     \<and> (k = global_key \<longrightarrow>
        (case v of VStream s \<Rightarrow> False | VChat ms \<Rightarrow> False | _ \<Rightarrow> True)))"

definition typed :: "Storage \<Rightarrow> bool" where
  "typed st = list_all typedEntry st"

text \<open>
  A property of entries that all the entries the registry writes have: a record under the
  key of its id, a list of records under the global key, and a transcript of at most 100
  messages under a chat key.
\<close>

definition written :: "(string \<times> StoredValue \<Rightarrow> bool) \<Rightarrow> bool" where
  "written P =
     ((\<forall>s. P (stream_key (sid s), VStream s))
      \<and> (\<forall>xs. P (global_key, VStreams xs))
      \<and> (\<forall>i ms. length ms \<le> 100 \<longrightarrow> P (chat_key i, VChat ms)))"

subsection \<open>Storage facts\<close>

lemma getItem_setItem_same: "getItem k (setItem k v st) = Some v"
proof (cases "k \<in> fst ` set st")
  case True
  then show ?thesis
    by (induction st) (auto simp: getItem_def setItem_def)
next
  case False
  then have "map_of st k = None"
    by (simp add: map_of_eq_None_iff)
  with False show ?thesis
    by (simp add: getItem_def setItem_def map_add_def)
qed

lemma getItem_setItem_other: "k' \<noteq> k \<Longrightarrow> getItem k' (setItem k v st) = getItem k' st"
proof (cases "k \<in> fst ` set st")
  case True
  assume "k' \<noteq> k"
  then have "map_of (map (\<lambda>(a, b). if a = k then (a, v) else (a, b)) st) k' = map_of st k'"
    by (induction st) auto
  with True show ?thesis
    by (simp add: getItem_def setItem_def)
next
  case False
  assume "k' \<noteq> k"
  with False show ?thesis
    by (simp add: getItem_def setItem_def map_add_def split: option.splits)
qed

lemma getItem_removeItem_same: "getItem k (removeItem k st) = None"
  by (auto simp: getItem_def removeItem_def map_of_eq_None_iff)

lemma getItem_removeItem_other: "k' \<noteq> k \<Longrightarrow> getItem k' (removeItem k st) = getItem k' st"
  by (induction st) (auto simp: getItem_def removeItem_def)

lemma slice_last_length: "length (slice_last n xs) \<le> n"
  by (simp add: slice_last_def)

lemma slice_last_append: "slice_last n (slice_last n xs @ ys) = slice_last n (xs @ ys)"
proof (cases "n \<le> length xs")
  case True
  then have "length xs + length ys - (length xs - n + n) + (length xs - n)
      = length xs + length ys - n"
    by arith
  moreover from True have "length ys - n = length xs + length ys - n - length xs"
    by arith
  ultimately show ?thesis
    using True by (simp add: slice_last_def)
next
  case False
  then show ?thesis
    by (simp add: slice_last_def)
qed

lemma getChatMessages_setItem:
  "getChatMessages i (setItem (chat_key i) (VChat ms) st) = ms"
  by (simp add: getChatMessages_def getItem_setItem_same)

subsection \<open>The three kinds of keys do not collide\<close>

lemma prefix_stream_key [simp]: "prefix stream_prefix (stream_key x)"
  by (simp add: stream_prefix_def stream_key_def)

lemma not_prefix_global_key [simp]: "\<not> prefix stream_prefix global_key"
  by (simp add: stream_prefix_def global_key_def)

lemma not_prefix_chat_key [simp]: "\<not> prefix stream_prefix (chat_key x)"
  by (simp add: stream_prefix_def chat_key_def)

lemma stream_key_neq_chat_key [simp]: "stream_key x \<noteq> chat_key y" "chat_key y \<noteq> stream_key x"
  by (simp_all add: stream_key_def chat_key_def)

lemma stream_key_neq_global_key [simp]: "stream_key x \<noteq> global_key" "global_key \<noteq> stream_key x"
  by (simp_all add: stream_key_def global_key_def)

lemma chat_key_neq_global_key [simp]: "chat_key x \<noteq> global_key" "global_key \<noteq> chat_key x"
  by (simp_all add: chat_key_def global_key_def)

lemma stream_key_inj [simp]: "(stream_key x = stream_key y) = (x = y)"
  by (simp add: stream_key_def)

lemma chat_key_inj [simp]: "(chat_key x = chat_key y) = (x = y)"
  by (simp add: chat_key_def)

subsection \<open>A reconciliation only deletes entries and rewrites the global list\<close>

lemma set_setItem: "set (setItem k v st) \<subseteq> set st \<union> {(k, v)}"
  by (auto simp: setItem_def split: if_splits)

lemma set_removeItem: "set (removeItem k st) \<subseteq> set st"
  by (auto simp: removeItem_def)

lemma getItem_in_set: "getItem k st = Some v \<Longrightarrow> (k, v) \<in> set st"
  by (simp add: getItem_def map_of_SomeD)

lemma set_index_step: "set (fst (index_step now e s)) \<subseteq> set (fst s)"
  using set_removeItem by (cases s) (auto simp: index_step_def Let_def split: option.splits)

lemma set_scan_step: "set (fst (scan_step now k s)) \<subseteq> set (fst s)"
  using set_removeItem by (cases s) (auto simp: scan_step_def Let_def split: option.splits)

lemma set_fold_index_step: "set (fst (fold (index_step now) es s)) \<subseteq> set (fst s)"
proof (induction es arbitrary: s)
  case Nil
  show ?case by simp
next
  case (Cons e es)
  have "set (fst (fold (index_step now) es (index_step now e s))) \<subseteq> set (fst (index_step now e s))"
    by (rule Cons.IH)
  also have "\<dots> \<subseteq> set (fst s)" by (rule set_index_step)
  finally show ?case by simp
qed

lemma set_index_pass: "set (fst (index_pass now s)) \<subseteq> set (fst s)"
  by (auto simp: index_pass_def split: option.splits dest: subsetD [OF set_fold_index_step])

lemma set_scan: "set (fst (scan now i s)) \<subseteq> set (fst s)"
proof (induction now i s rule: scan.induct)
  case (1 now i st streams streamIds)
  show ?case
  proof (cases "i < length st")
    case False
    then show ?thesis by (simp add: scan.simps)
  next
    case True
    show ?thesis
    proof (cases "prefix stream_prefix (fst (st ! i))")
      case True
      have "set (fst (scan now (Suc i) (scan_step now (fst (st ! i)) (st, streams, streamIds))))
          \<subseteq> set (fst (scan_step now (fst (st ! i)) (st, streams, streamIds)))"
        using "1.IH"(1) [OF \<open>i < length st\<close> True] .
      also have "\<dots> \<subseteq> set st"
        using set_scan_step [of now "fst (st ! i)" "(st, streams, streamIds)"] by simp
      finally show ?thesis
        using \<open>i < length st\<close> True by (simp add: scan.simps)
    next
      case False
      then show ?thesis
        using "1.IH"(2) [OF \<open>i < length st\<close> False] \<open>i < length st\<close>
        by (simp add: scan.simps)
    qed
  qed
qed

lemma set_getAllStreamsFromStorage:
  "set (snd (getAllStreamsFromStorage now st))
     \<subseteq> set st \<union> {(global_key, VStreams (fst (getAllStreamsFromStorage now st)))}"
proof -
  obtain st' streams ids where sc: "scan now 0 (index_pass now (st, [], {})) = (st', streams, ids)"
    by (cases "scan now 0 (index_pass now (st, [], {}))") auto
  have "set st' \<subseteq> set (fst (index_pass now (st, [], {})))"
    using set_scan [of now 0 "index_pass now (st, [], {})"] sc by simp
  also have "\<dots> \<subseteq> set st"
    using set_index_pass [of now "(st, [], {})"] by simp
  finally have "set st' \<subseteq> set st" .
  then show ?thesis
    using set_setItem [of global_key "VStreams (filter isLive streams)" st'] sc
    by (auto simp: getAllStreamsFromStorage_def Let_def)
qed

subsection \<open>What a reconciliation keeps, deletes and returns\<close>

lemma tracks_init: "tracks now st0 (st0, [], {})"
  by (simp add: tracks_def)

lemma tracks_remove:
  assumes "tracks now st0 (st, streams, ids)" and "removable now st0 k"
  shows "tracks now st0 (removeItem k st, streams, ids)"
  unfolding tracks_def
proof (intro conjI allI)
  fix k'
  show "getItem k' (fst (removeItem k st, streams, ids)) = getItem k' st0
      \<or> (getItem k' (fst (removeItem k st, streams, ids)) = None \<and> removable now st0 k')"
  proof (cases "k' = k")
    case True
    with assms(2) show ?thesis by (simp add: getItem_removeItem_same)
  next
    case False
    with assms(1) show ?thesis by (simp add: tracks_def getItem_removeItem_other)
  qed
next
  show "\<forall>r\<in>set (fst (snd (removeItem k st, streams, ids))).
       isLive r \<and> (vouched now st0 r \<or> scanned now st0 r)"
    using assms(1) by (simp add: tracks_def)
qed

lemma tracks_push:
  assumes "tracks now st0 (st, streams, ids)" and "isLive r"
    and "vouched now st0 r \<or> scanned now st0 r"
  shows "tracks now st0 (st, streams @ [r], ids')"
  using assms by (auto simp: tracks_def)

lemma tracks_ids: "tracks now st0 (st, streams, ids) \<Longrightarrow> tracks now st0 (st, streams, ids')"
  by (simp add: tracks_def)

lemma tracks_read:
  assumes "tracks now st0 (st, streams, ids)" and "getItem k st = Some v"
  shows "getItem k st0 = Some v"
  using assms by (auto simp: tracks_def dest: spec [of _ k])

lemma tracks_index_step:
  assumes t: "tracks now st0 s" and e: "e \<in> set (indexOf st0)"
  shows "tracks now st0 (index_step now e s)"
proof -
  obtain st streams ids where s: "s = (st, streams, ids)" by (cases s) auto
  let ?k = "stream_key (sid e)"
  show ?thesis
  proof (cases "isLive e \<and> sid e \<noteq> [] \<and> sid e \<notin> ids \<and> now - startTime e < maxAge")
    case fresh: True
    show ?thesis
    proof (cases "getItem ?k st")
      case None
      with fresh t s show ?thesis by (simp add: index_step_def)
    next
      case (Some v)
      then have v0: "getItem ?k st0 = Some v"
        using t s tracks_read by blast
      show ?thesis
      proof (cases "v = Empty")
        case True
        with fresh Some t s show ?thesis by (simp add: index_step_def)
      next
        case ne: False
        show ?thesis
        proof (cases "parseStream v")
          case None
          with ne v0 have "removable now st0 ?k"
            by (simp add: removable_def doomed_def)
          then have "tracks now st0 (removeItem ?k st, streams, ids)"
            using t s tracks_remove by blast
          with fresh Some ne None s show ?thesis by (simp add: index_step_def)
        next
          case (Some r)
          then have vr: "v = VStream r" by (cases v) auto
          show ?thesis
          proof (cases "isLive r")
            case True
            have "vouched now st0 r"
              using fresh e v0 vr by (auto simp: vouched_def)
            then have "tracks now st0 (st, streams @ [r], insert (sid e) ids)"
              using t s True tracks_push by blast
            with fresh \<open>getItem ?k st = Some v\<close> ne Some True s show ?thesis
              by (simp add: index_step_def)
          next
            case False
            with fresh \<open>getItem ?k st = Some v\<close> ne Some t s show ?thesis
              by (simp add: index_step_def)
          qed
        qed
      qed
    qed
  next
    case notfresh: False
    show ?thesis
    proof (cases "now - startTime e \<ge> maxAge")
      case True
      with e have "removable now st0 ?k"
        by (auto simp: removable_def)
      then have "tracks now st0 (removeItem ?k st, streams, ids)"
        using t s tracks_remove by blast
      with notfresh True s show ?thesis by (simp add: index_step_def)
    next
      case False
      with notfresh t s show ?thesis by (auto simp: index_step_def)
    qed
  qed
qed

lemma tracks_fold_index_step:
  "tracks now st0 s \<Longrightarrow> set es \<subseteq> set (indexOf st0)
     \<Longrightarrow> tracks now st0 (fold (index_step now) es s)"
  by (induction es arbitrary: s) (simp_all add: tracks_index_step)

lemma tracks_index_pass: "tracks now st0 (index_pass now (st0, [], {}))"
proof -
  have "tracks now st0 (fold (index_step now) (indexOf st0) (st0, [], {}))"
    by (rule tracks_fold_index_step [OF tracks_init]) simp
  then show ?thesis
    by (auto simp: index_pass_def indexOf_def tracks_init split: option.splits StoredValue.splits)
qed

lemma tracks_scan_step:
  assumes t: "tracks now st0 s" and k: "prefix stream_prefix k"
  shows "tracks now st0 (scan_step now k s)"
proof -
  obtain st streams ids where s: "s = (st, streams, ids)" by (cases s) auto
  show ?thesis
  proof (cases "getItem k st")
    case None
    with t s show ?thesis by (simp add: scan_step_def)
  next
    case (Some v)
    then have v0: "getItem k st0 = Some v"
      using t s tracks_read by blast
    show ?thesis
    proof (cases "v = Empty")
      case True
      with Some t s show ?thesis by (simp add: scan_step_def)
    next
      case ne: False
      show ?thesis
      proof (cases "parseStream v")
        case None
        with ne v0 k have "removable now st0 k"
          by (simp add: removable_def doomed_def)
        then have "tracks now st0 (removeItem k st, streams, ids)"
          using t s tracks_remove by blast
        with \<open>getItem k st = Some v\<close> ne None s show ?thesis by (simp add: scan_step_def)
      next
        case (Some r)
        then have vr: "v = VStream r" by (cases v) auto
        show ?thesis
        proof (cases "isLive r \<and> sid r \<noteq> [] \<and> sid r \<notin> ids \<and> now - startTime r < maxAge")
          case True
          have "k \<in> fst ` set st0"
            using v0 getItem_in_set by force
          then have "scanned now st0 r"
            using True k v0 vr by (auto simp: scanned_def)
          then have "tracks now st0 (st, streams @ [r], insert (sid r) ids)"
            using t s True tracks_push by blast
          with True \<open>getItem k st = Some v\<close> ne Some s show ?thesis
            by (simp add: scan_step_def)
        next
          case nopush: False
          show ?thesis
          proof (cases "\<not> isLive r \<or> now - startTime r \<ge> maxAge")
            case True
            with v0 vr k have "removable now st0 k"
              by (auto simp: removable_def doomed_def)
            then have "tracks now st0 (removeItem k st, streams, ids)"
              using t s tracks_remove by blast
            with nopush True \<open>getItem k st = Some v\<close> ne Some s show ?thesis
              by (auto simp: scan_step_def Let_def)
          next
            case False
            with nopush \<open>getItem k st = Some v\<close> ne Some t s show ?thesis
              by (auto simp: scan_step_def Let_def)
          qed
        qed
      qed
    qed
  qed
qed

lemma tracks_scan: "tracks now st0 s \<Longrightarrow> tracks now st0 (scan now i s)"
proof (induction now i s rule: scan.induct)
  case (1 now i st streams streamIds)
  show ?case
  proof (cases "i < length st")
    case False
    with "1.prems" show ?thesis by (simp add: scan.simps)
  next
    case True
    show ?thesis
    proof (cases "prefix stream_prefix (fst (st ! i))")
      case p: True
      have "tracks now st0 (scan_step now (fst (st ! i)) (st, streams, streamIds))"
        using "1.prems" p by (rule tracks_scan_step)
      then show ?thesis
        using "1.IH"(1) [OF True p] True p by (simp add: scan.simps)
    next
      case False
      then show ?thesis
        using "1.IH"(2) [OF True False] "1.prems" True by (simp add: scan.simps)
    qed
  qed
qed

lemma tracks_reconcile: "tracks now st (scan now 0 (index_pass now (st, [], {})))"
  by (rule tracks_scan [OF tracks_index_pass])

lemma filter_isLive_tracked:
  "tracks now st0 (st, streams, ids) \<Longrightarrow> filter isLive streams = streams"
  by (auto simp: tracks_def intro: filter_True)

lemma getAllStreamsFromStorage_sound:
  assumes "r \<in> set (fst (getAllStreamsFromStorage now st))"
  shows "isLive r \<and> (vouched now st r \<or> scanned now st r)"
proof -
  obtain st' streams ids where sc: "scan now 0 (index_pass now (st, [], {})) = (st', streams, ids)"
    by (cases "scan now 0 (index_pass now (st, [], {}))") auto
  then have t: "tracks now st (st', streams, ids)"
    using tracks_reconcile [of now st] by simp
  from assms sc have "r \<in> set streams"
    by (auto simp: getAllStreamsFromStorage_def Let_def)
  with t show ?thesis by (simp add: tracks_def)
qed

lemma getAllStreamsFromStorage_global:
  "getItem global_key (snd (getAllStreamsFromStorage now st))
     = Some (VStreams (fst (getAllStreamsFromStorage now st)))"
  by (simp add: getAllStreamsFromStorage_def Let_def getItem_setItem_same split: prod.splits)

lemma getAllStreamsFromStorage_other:
  assumes "k \<noteq> global_key"
  shows "getItem k (snd (getAllStreamsFromStorage now st)) = getItem k st
     \<or> (getItem k (snd (getAllStreamsFromStorage now st)) = None \<and> removable now st k)"
proof -
  obtain st' streams ids where sc: "scan now 0 (index_pass now (st, [], {})) = (st', streams, ids)"
    by (cases "scan now 0 (index_pass now (st, [], {}))") auto
  then have t: "tracks now st (st', streams, ids)"
    using tracks_reconcile [of now st] by simp
  have "getItem k (snd (getAllStreamsFromStorage now st)) = getItem k st'"
    using sc assms by (simp add: getAllStreamsFromStorage_def Let_def getItem_setItem_other)
  with t show ?thesis by (auto simp: tracks_def dest: spec [of _ k])
qed

subsection \<open>Properties of all entries\<close>

lemma list_all_setItem:
  "list_all P st \<Longrightarrow> P (k, v) \<Longrightarrow> list_all P (setItem k v st)"
  using set_setItem [of k v st] by (auto simp: list_all_iff)

lemma list_all_removeItem: "list_all P st \<Longrightarrow> list_all P (removeItem k st)"
  using set_removeItem [of k st] by (auto simp: list_all_iff)

lemma list_all_getAllStreamsFromStorage:
  assumes "list_all P st" and "\<And>xs. P (global_key, VStreams xs)"
  shows "list_all P (snd (getAllStreamsFromStorage now st))"
  using set_getAllStreamsFromStorage [of now st] assms by (auto simp: list_all_iff)

lemma list_all_storeStream:
  assumes "list_all P st" and "P (stream_key (sid s), VStream s)"
    and "\<And>xs. P (global_key, VStreams xs)"
  shows "list_all P (storeStream s st)"
  using assms by (simp add: storeStream_def Let_def list_all_setItem)

subsection \<open>Well-keyed storages\<close>

lemma keyedEntry_simps [simp]:
  "keyedEntry (k, VStream s) = (k = stream_key (sid s))"
  "keyedEntry (k, VStreams xs)" "keyedEntry (k, VChat ms)" "keyedEntry (k, Empty)"
  "keyedEntry (k, Corrupt)"
  by (simp_all add: keyedEntry_def)

lemma wellKeyed_getItem:
  "wellKeyed st \<Longrightarrow> getItem k st = Some (VStream s) \<Longrightarrow> k = stream_key (sid s)"
  by (auto simp: wellKeyed_def list_all_iff dest!: getItem_in_set)

lemma wellKeyed_getAllStreamsFromStorage:
  "wellKeyed st \<Longrightarrow> wellKeyed (snd (getAllStreamsFromStorage now st))"
  unfolding wellKeyed_def by (rule list_all_getAllStreamsFromStorage) simp_all

lemma wellKeyed_storeStream: "wellKeyed st \<Longrightarrow> wellKeyed (storeStream s st)"
  unfolding wellKeyed_def by (rule list_all_storeStream) simp_all

lemma wellKeyed_updateStream: "wellKeyed st \<Longrightarrow> wellKeyed (snd (updateStream now i u st))"
  by (auto simp: updateStream_def wellKeyed_storeStream split: option.splits)

lemma wellKeyed_endStream: "wellKeyed st \<Longrightarrow> wellKeyed (endStream now i st)"
proof -
  assume "wellKeyed st"
  then have "wellKeyed (snd (updateStream now i (noUpdates\<lparr>p_isLive := Some False\<rparr>) st))"
    by (rule wellKeyed_updateStream)
  then show ?thesis
    unfolding wellKeyed_def endStream_def Let_def
    by (auto intro!: list_all_removeItem list_all_setItem split: option.splits)
qed

lemma found_stored:
  assumes "wellKeyed st" and "r \<in> set (fst (getAllStreamsFromStorage now st))"
  shows "getItem (stream_key (sid r)) st = Some (VStream r)"
proof -
  from assms(2) have "vouched now st r \<or> scanned now st r"
    using getAllStreamsFromStorage_sound by blast
  then obtain k where "getItem k st = Some (VStream r)"
    by (auto simp: vouched_def scanned_def)
  with assms(1) show ?thesis
    using wellKeyed_getItem by blast
qed

lemma getItem_None_getAllStreamsFromStorage:
  "k \<noteq> global_key \<Longrightarrow> getItem k st = None
     \<Longrightarrow> getItem k (snd (getAllStreamsFromStorage now st)) = None"
  using getAllStreamsFromStorage_other [of k now st] by auto

lemma getItem_None_reconciles:
  "k \<noteq> global_key \<Longrightarrow> getItem k st = None \<Longrightarrow> getItem k (reconciles ts st) = None"
  by (induction ts arbitrary: st)
     (simp_all add: getAllActiveStreams_def getItem_None_getAllStreamsFromStorage)

lemma wellKeyed_reconciles: "wellKeyed st \<Longrightarrow> wellKeyed (reconciles ts st)"
  by (induction ts arbitrary: st)
     (simp_all add: getAllActiveStreams_def wellKeyed_getAllStreamsFromStorage)

lemma endStream_stream_key: "getItem (stream_key i) (endStream now i st) = None"
  by (simp add: endStream_def Let_def getItem_removeItem_other getItem_removeItem_same)

lemma endStream_chat_key: "getItem (chat_key i) (endStream now i st) = None"
  by (simp add: endStream_def Let_def getItem_removeItem_same)

subsection \<open>Index self-healing\<close>

text \<open>
  C5. In a well-keyed storage whose global list contains an id that has no individual
  record, \<^verbatim>\<open>getAllActiveStreams\<close> returns no record of that id and rewrites the global
  list to the list it returns, which no longer contains that id.
\<close>

theorem index_self_healing:
  assumes "wellKeyed st" and "i \<in> sid ` set (indexOf st)" and "\<not> hasRecord i st"
  shows "i \<notin> sid ` set (fst (getAllActiveStreams now st))
     \<and> getItem global_key (snd (getAllActiveStreams now st))
         = Some (VStreams (fst (getAllActiveStreams now st)))
     \<and> i \<notin> sid ` set (indexOf (snd (getAllActiveStreams now st)))"
proof -
  have notin: "i \<notin> sid ` set (fst (getAllActiveStreams now st))"
  proof
    assume "i \<in> sid ` set (fst (getAllActiveStreams now st))"
    then obtain r where "r \<in> set (fst (getAllStreamsFromStorage now st))" and "sid r = i"
      by (auto simp: getAllActiveStreams_def)
    then have "getItem (stream_key i) st = Some (VStream r)"
      using found_stored [OF assms(1)] by blast
    with assms(3) show False by (simp add: hasRecord_def)
  qed
  have g: "getItem global_key (snd (getAllActiveStreams now st))
         = Some (VStreams (fst (getAllActiveStreams now st)))"
    by (simp add: getAllActiveStreams_def getAllStreamsFromStorage_global)
  then have "indexOf (snd (getAllActiveStreams now st)) = fst (getAllActiveStreams now st)"
    by (simp add: indexOf_def)
  with notin g show ?thesis by simp
qed

text \<open>An instance: the global list names \<open>a\<close> and \<open>b\<close>, only \<open>b\<close> has a record.\<close>

theorem index_self_healing_witness:
  "wellKeyed [(global_key, VStreams [demoStream ''a'' True 50, demoStream ''b'' True 60]),
              (stream_key ''b'', VStream (demoStream ''b'' True 60))]
   \<and> ''a'' \<in> sid ` set (indexOf
        [(global_key, VStreams [demoStream ''a'' True 50, demoStream ''b'' True 60]),
         (stream_key ''b'', VStream (demoStream ''b'' True 60))])
   \<and> \<not> hasRecord ''a''
        [(global_key, VStreams [demoStream ''a'' True 50, demoStream ''b'' True 60]),
         (stream_key ''b'', VStream (demoStream ''b'' True 60))]
   \<and> ''a'' \<notin> sid ` set (fst (getAllActiveStreams 100
        [(global_key, VStreams [demoStream ''a'' True 50, demoStream ''b'' True 60]),
         (stream_key ''b'', VStream (demoStream ''b'' True 60))]))
   \<and> ''a'' \<notin> sid ` set (indexOf (snd (getAllActiveStreams 100
        [(global_key, VStreams [demoStream ''a'' True 50, demoStream ''b'' True 60]),
         (stream_key ''b'', VStream (demoStream ''b'' True 60))])))"
proof -
  let ?st = "[(global_key, VStreams [demoStream ''a'' True 50, demoStream ''b'' True 60]),
              (stream_key ''b'', VStream (demoStream ''b'' True 60))]"
  have h1: "wellKeyed ?st"
    by (simp add: wellKeyed_def demoStream_def)
  have h2: "''a'' \<in> sid ` set (indexOf ?st)"
    by (simp add: indexOf_def getItem_def demoStream_def)
  have h3: "\<not> hasRecord ''a'' ?st"
    by (simp add: hasRecord_def getItem_def)
  from index_self_healing [OF h1 h2 h3, of 100] h1 h2 h3 show ?thesis
    by blast
qed

subsection \<open>The storage a chat operation leaves\<close>

lemma spreadMessages_Some:
  "spreadMessages i st = Some ms \<Longrightarrow> ms = getChatMessages i st"
  by (auto simp: spreadMessages_def split: option.splits StoredValue.splits)

lemma sendMessage_shape:
  obtains (failed) "spreadMessages i st = None"
      "sendMessage i sender' msg addr now newId st = (False, st)"
    | (sent) "spreadMessages i st = Some (getChatMessages i st)"
      "sendMessage i sender' msg addr now newId st
         = (True, setItem (chat_key i)
              (VChat (slice_last 100
                 (getChatMessages i st @ [chatMessage i sender' msg addr now newId]))) st)"
proof (cases "spreadMessages i st")
  case None
  then have "sendMessage i sender' msg addr now newId st = (False, st)"
    by (simp add: sendMessage_def)
  with None show thesis by (rule failed)
next
  case (Some ms)
  then have ms: "ms = getChatMessages i st"
    by (rule spreadMessages_Some)
  with Some have "sendMessage i sender' msg addr now newId st
      = (True, setItem (chat_key i)
           (VChat (slice_last 100
              (getChatMessages i st @ [chatMessage i sender' msg addr now newId]))) st)"
    by (simp add: sendMessage_def Let_def)
  with Some ms show thesis by (simp add: sent)
qed

text \<open>
  The three ways a \<^verbatim>\<open>joinStream\<close> ends: the lookup does not return the stream; the
  count is written and the spread throws; the count is written and the message is appended.
\<close>

lemma joinStream_shape:
  obtains (missing) "find (\<lambda>s. sid s = i) (fst (getAllActiveStreams now st)) = None"
      "joinStream i v now newId st = (Inr False, snd (getAllActiveStreams now st))"
    | (threw) r st2 where "find (\<lambda>s. sid s = i) (fst (getAllActiveStreams now st)) = Some r"
      "st2 = snd (updateStream now i
                (noUpdates\<lparr>p_viewerCount := Some (roundDouble (viewerCount r + 1))\<rparr>)
                (snd (getAllActiveStreams now st)))"
      "spreadMessages i st2 = None"
      "joinStream i v now newId st = (Inl TypeError, st2)"
    | (joined) r st2 where "find (\<lambda>s. sid s = i) (fst (getAllActiveStreams now st)) = Some r"
      "st2 = snd (updateStream now i
                (noUpdates\<lparr>p_viewerCount := Some (roundDouble (viewerCount r + 1))\<rparr>)
                (snd (getAllActiveStreams now st)))"
      "spreadMessages i st2 = Some (getChatMessages i st2)"
      "joinStream i v now newId st
         = (Inr True, setItem (chat_key i)
              (VChat (slice_last 100
                 (getChatMessages i st2
                  @ [systemMessage Join i (v @ '' joined the stream'') now newId]))) st2)"
proof (cases "find (\<lambda>s. sid s = i) (fst (getAllActiveStreams now st))")
  case None
  then have "joinStream i v now newId st = (Inr False, snd (getAllActiveStreams now st))"
    by (cases "getAllActiveStreams now st") (simp add: joinStream_def)
  with None show thesis by (rule missing)
next
  case (Some r)
  define st2 where "st2 = snd (updateStream now i
      (noUpdates\<lparr>p_viewerCount := Some (roundDouble (viewerCount r + 1))\<rparr>)
      (snd (getAllActiveStreams now st)))"
  show thesis
  proof (cases "spreadMessages i st2")
    case None
    with Some have "joinStream i v now newId st = (Inl TypeError, st2)"
      by (cases "getAllActiveStreams now st") (simp add: joinStream_def Let_def st2_def)
    with Some st2_def None show thesis by (rule threw)
  next
    case (Some ms)
    then have ms: "ms = getChatMessages i st2"
      by (rule spreadMessages_Some)
    from Some \<open>find (\<lambda>s. sid s = i) (fst (getAllActiveStreams now st)) = Some r\<close>
    have "joinStream i v now newId st
        = (Inr True, setItem (chat_key i)
             (VChat (slice_last 100
                (getChatMessages i st2
                 @ [systemMessage Join i (v @ '' joined the stream'') now newId]))) st2)"
      by (cases "getAllActiveStreams now st") (simp add: joinStream_def Let_def st2_def ms)
    moreover from Some ms have "spreadMessages i st2 = Some (getChatMessages i st2)"
      by simp
    ultimately show thesis
      using \<open>find (\<lambda>s. sid s = i) (fst (getAllActiveStreams now st)) = Some r\<close> st2_def
      by (intro joined [of r st2])
  qed
qed

lemma leaveStream_shape:
  obtains (missing) "find (\<lambda>s. sid s = i) (fst (getAllActiveStreams now st)) = None"
      "leaveStream i v now newId st = (Inr False, snd (getAllActiveStreams now st))"
    | (threw) r st2 where "find (\<lambda>s. sid s = i) (fst (getAllActiveStreams now st)) = Some r"
      "st2 = snd (updateStream now i
                (noUpdates\<lparr>p_viewerCount := Some (max 0 (roundDouble (viewerCount r - 1)))\<rparr>)
                (snd (getAllActiveStreams now st)))"
      "spreadMessages i st2 = None"
      "leaveStream i v now newId st = (Inl TypeError, st2)"
    | (left) r st2 where "find (\<lambda>s. sid s = i) (fst (getAllActiveStreams now st)) = Some r"
      "st2 = snd (updateStream now i
                (noUpdates\<lparr>p_viewerCount := Some (max 0 (roundDouble (viewerCount r - 1)))\<rparr>)
                (snd (getAllActiveStreams now st)))"
      "spreadMessages i st2 = Some (getChatMessages i st2)"
      "leaveStream i v now newId st
         = (Inr True, setItem (chat_key i)
              (VChat (slice_last 100
                 (getChatMessages i st2
                  @ [systemMessage Leave i (v @ '' left the stream'') now newId]))) st2)"
proof (cases "find (\<lambda>s. sid s = i) (fst (getAllActiveStreams now st))")
  case None
  then have "leaveStream i v now newId st = (Inr False, snd (getAllActiveStreams now st))"
    by (cases "getAllActiveStreams now st") (simp add: leaveStream_def)
  with None show thesis by (rule missing)
next
  case (Some r)
  define st2 where "st2 = snd (updateStream now i
      (noUpdates\<lparr>p_viewerCount := Some (max 0 (roundDouble (viewerCount r - 1)))\<rparr>)
      (snd (getAllActiveStreams now st)))"
  show thesis
  proof (cases "spreadMessages i st2")
    case None
    with Some have "leaveStream i v now newId st = (Inl TypeError, st2)"
      by (cases "getAllActiveStreams now st") (simp add: leaveStream_def Let_def st2_def)
    with Some st2_def None show thesis by (rule threw)
  next
    case (Some ms)
    then have ms: "ms = getChatMessages i st2"
      by (rule spreadMessages_Some)
    from Some \<open>find (\<lambda>s. sid s = i) (fst (getAllActiveStreams now st)) = Some r\<close>
    have "leaveStream i v now newId st
        = (Inr True, setItem (chat_key i)
             (VChat (slice_last 100
                (getChatMessages i st2
                 @ [systemMessage Leave i (v @ '' left the stream'') now newId]))) st2)"
      by (cases "getAllActiveStreams now st") (simp add: leaveStream_def Let_def st2_def ms)
    moreover from Some ms have "spreadMessages i st2 = Some (getChatMessages i st2)"
      by simp
    ultimately show thesis
      using \<open>find (\<lambda>s. sid s = i) (fst (getAllActiveStreams now st)) = Some r\<close> st2_def
      by (intro left [of r st2])
  qed
qed

subsection \<open>The transcript cap\<close>

lemma cappedEntry_simps [simp]:
  "cappedEntry (k, VChat ms) = (length ms \<le> 100)"
  "cappedEntry (k, VStream s)" "cappedEntry (k, VStreams xs)" "cappedEntry (k, Empty)"
  "cappedEntry (k, Corrupt)"
  by (simp_all add: cappedEntry_def)

lemma chatCapped_getChatMessages: "chatCapped st \<Longrightarrow> length (getChatMessages j st) \<le> 100"
proof (cases "getItem (chat_key j) st")
  case None
  then show ?thesis by (simp add: getChatMessages_def)
next
  case (Some v)
  assume "chatCapped st"
  with Some have "cappedEntry (chat_key j, v)"
    by (auto simp: chatCapped_def list_all_iff dest!: getItem_in_set)
  with Some show ?thesis
    by (cases v) (simp_all add: getChatMessages_def)
qed

lemma chatCapped_append:
  "chatCapped st \<Longrightarrow> chatCapped (setItem (chat_key i) (VChat (slice_last 100 ms)) st)"
  unfolding chatCapped_def by (rule list_all_setItem) (simp_all add: slice_last_length)

lemma chatCapped_sendMessage:
  assumes "chatCapped st"
  shows "chatCapped (snd (sendMessage i sender' msg addr now newId st))"
proof (cases rule: sendMessage_shape [of i st sender' msg addr now newId])
  case failed
  with assms show ?thesis by simp
next
  case sent
  with assms show ?thesis by (simp add: chatCapped_append)
qed

lemma chatCapped_updateStream: "chatCapped st \<Longrightarrow> chatCapped (snd (updateStream now i u st))"
  unfolding chatCapped_def
  by (auto simp: updateStream_def intro!: list_all_storeStream split: option.splits)

lemma chatCapped_getAllActiveStreams:
  "chatCapped st \<Longrightarrow> chatCapped (snd (getAllActiveStreams now st))"
  unfolding chatCapped_def getAllActiveStreams_def
  by (rule list_all_getAllStreamsFromStorage) simp_all

lemma chatCapped_joinStream:
  assumes "chatCapped st"
  shows "chatCapped (snd (joinStream i viewer now newId st))"
proof (cases rule: joinStream_shape [of i now st viewer newId])
  case missing
  with assms show ?thesis by (simp add: chatCapped_getAllActiveStreams)
next
  case (threw r st2)
  with assms show ?thesis
    by (simp add: chatCapped_getAllActiveStreams chatCapped_updateStream)
next
  case (joined r st2)
  with assms show ?thesis
    by (simp add: chatCapped_getAllActiveStreams chatCapped_updateStream chatCapped_append)
qed

lemma chatCapped_leaveStream:
  assumes "chatCapped st"
  shows "chatCapped (snd (leaveStream i viewer now newId st))"
proof (cases rule: leaveStream_shape [of i now st viewer newId])
  case missing
  with assms show ?thesis by (simp add: chatCapped_getAllActiveStreams)
next
  case (threw r st2)
  with assms show ?thesis
    by (simp add: chatCapped_getAllActiveStreams chatCapped_updateStream)
next
  case (left r st2)
  with assms show ?thesis
    by (simp add: chatCapped_getAllActiveStreams chatCapped_updateStream chatCapped_append)
qed

lemma chatCapped_applyOp: "chatCapped st \<Longrightarrow> chatCapped (applyOp op st)"
  by (cases op) (simp_all add: chatCapped_sendMessage chatCapped_joinStream chatCapped_leaveStream)

lemma chatCapped_applyOps: "chatCapped st \<Longrightarrow> chatCapped (applyOps ops st)"
  unfolding applyOps_def by (induction ops arbitrary: st) (simp_all add: chatCapped_applyOp)

subsection \<open>Properties that every write of the registry keeps\<close>

lemma written_stream: "written P \<Longrightarrow> P (stream_key (sid s), VStream s)"
  by (simp add: written_def)

lemma written_global: "written P \<Longrightarrow> P (global_key, VStreams xs)"
  by (simp add: written_def)

lemma written_chat: "written P \<Longrightarrow> P (chat_key i, VChat (slice_last 100 ms))"
  by (simp add: written_def slice_last_length)

lemma kept_storeStream:
  "written P \<Longrightarrow> list_all P st \<Longrightarrow> list_all P (storeStream s st)"
  by (rule list_all_storeStream) (simp_all add: written_def)

lemma kept_updateStream:
  "written P \<Longrightarrow> list_all P st \<Longrightarrow> list_all P (snd (updateStream now i u st))"
  by (auto simp: updateStream_def kept_storeStream split: option.splits)

lemma kept_getAllStreamsFromStorage:
  "written P \<Longrightarrow> list_all P st \<Longrightarrow> list_all P (snd (getAllStreamsFromStorage now st))"
  by (rule list_all_getAllStreamsFromStorage) (simp_all add: written_def)

lemma kept_getAllActiveStreams:
  "written P \<Longrightarrow> list_all P st \<Longrightarrow> list_all P (snd (getAllActiveStreams now st))"
  by (simp add: getAllActiveStreams_def kept_getAllStreamsFromStorage)

lemma kept_filter_index:
  assumes "written P" and "list_all P st"
  shows "list_all P
     (case getItem global_key st of
        None \<Rightarrow> st
      | Some globalStreamsData \<Rightarrow>
          if globalStreamsData = Empty then st
          else
            (case parseStreams globalStreamsData of
               None \<Rightarrow> st
             | Some globalStreams \<Rightarrow>
                 setItem global_key (VStreams (filter Q globalStreams)) st))"
  using assms by (auto simp: written_global intro!: list_all_setItem split: option.splits)

lemma kept_endStream:
  assumes "written P" and "list_all P st"
  shows "list_all P (endStream now i st)"
  unfolding endStream_def Let_def
  by (intro list_all_removeItem kept_filter_index kept_updateStream assms)

lemma kept_removeStreamFromBroadcast:
  assumes "written P" and "list_all P st"
  shows "list_all P (removeStreamFromBroadcast i st)"
  unfolding removeStreamFromBroadcast_def Let_def
  by (intro kept_filter_index list_all_removeItem assms)

lemma kept_storeStreamFromBroadcast:
  "written P \<Longrightarrow> list_all P st \<Longrightarrow> list_all P (storeStreamFromBroadcast s st)"
  by (auto simp: storeStreamFromBroadcast_def kept_storeStream split: option.splits)

lemma kept_sendMessage:
  assumes "written P" and "list_all P st"
  shows "list_all P (snd (sendMessage i sender' msg addr now newId st))"
proof (cases rule: sendMessage_shape [of i st sender' msg addr now newId])
  case failed
  with assms show ?thesis by simp
next
  case sent
  with assms show ?thesis by (simp add: list_all_setItem written_chat)
qed

lemma kept_joinStream:
  assumes "written P" and "list_all P st"
  shows "list_all P (snd (joinStream i v now newId st))"
proof (cases rule: joinStream_shape [of i now st v newId])
  case missing
  with assms show ?thesis by (simp add: kept_getAllActiveStreams)
next
  case (threw r st2)
  with assms show ?thesis
    by (simp add: kept_getAllActiveStreams kept_updateStream)
next
  case (joined r st2)
  with assms show ?thesis
    by (simp add: kept_getAllActiveStreams kept_updateStream list_all_setItem written_chat)
qed

lemma kept_leaveStream:
  assumes "written P" and "list_all P st"
  shows "list_all P (snd (leaveStream i v now newId st))"
proof (cases rule: leaveStream_shape [of i now st v newId])
  case missing
  with assms show ?thesis by (simp add: kept_getAllActiveStreams)
next
  case (threw r st2)
  with assms show ?thesis
    by (simp add: kept_getAllActiveStreams kept_updateStream)
next
  case (left r st2)
  with assms show ?thesis
    by (simp add: kept_getAllActiveStreams kept_updateStream list_all_setItem written_chat)
qed

lemma kept_applyOp: "written P \<Longrightarrow> list_all P st \<Longrightarrow> list_all P (applyOp op st)"
  by (cases op) (simp_all add: kept_sendMessage kept_joinStream kept_leaveStream)

lemma kept_applyOps: "written P \<Longrightarrow> list_all P st \<Longrightarrow> list_all P (applyOps ops st)"
  unfolding applyOps_def by (induction ops arbitrary: st) (simp_all add: kept_applyOp)

lemma kept_onMessage:
  assumes "written P" and "list_all P st"
  shows "list_all P (onMessage w now msg st)"
proof (cases msg)
  case (SyncResponseMessage sender' streams)
  have "list_all P (fold storeStreamFromBroadcast streams st')" if "list_all P st'" for st'
    using that assms(1)
    by (induction streams arbitrary: st') (simp_all add: kept_storeStreamFromBroadcast)
  with assms SyncResponseMessage show ?thesis
    by (simp add: syncStreams_def kept_getAllStreamsFromStorage)
qed (simp_all add: assms syncStreams_def kept_getAllStreamsFromStorage
      kept_storeStreamFromBroadcast kept_removeStreamFromBroadcast)

lemma kept_perform: "written P \<Longrightarrow> list_all P st \<Longrightarrow> list_all P (perform c st)"
  by (cases c)
     (simp_all add: createStream_def Let_def kept_storeStream kept_updateStream kept_endStream
        kept_getAllActiveStreams kept_applyOp kept_onMessage)

lemma kept_reachable: "written P \<Longrightarrow> list_all P (fold perform cs [])"
proof -
  assume w: "written P"
  have "list_all P st \<Longrightarrow> list_all P (fold perform cs st)" for st
    by (induction cs arbitrary: st) (simp_all add: kept_perform w)
  then show ?thesis by simp
qed

subsection \<open>Typed storages\<close>

lemma prefix_chat_key [simp]: "prefix chat_prefix (chat_key x)"
  by (simp add: chat_prefix_def chat_key_def)

lemma not_chat_prefix_stream_key [simp]: "\<not> prefix chat_prefix (stream_key x)"
  by (simp add: chat_prefix_def stream_key_def)

lemma not_chat_prefix_global_key [simp]: "\<not> prefix chat_prefix global_key"
  by (simp add: chat_prefix_def global_key_def)

lemma written_typedEntry: "written typedEntry"
  by (simp add: written_def typedEntry_def)

lemma written_cappedEntry: "written cappedEntry"
  by (simp add: written_def)

lemma typed_chat:
  assumes "typed st"
  shows "spreadMessages i st = Some (getChatMessages i st)"
proof (cases "getItem (chat_key i) st")
  case None
  then show ?thesis by (simp add: spreadMessages_def)
next
  case (Some v)
  with assms have "typedEntry (chat_key i, v)"
    by (auto simp: typed_def list_all_iff dest!: getItem_in_set)
  with Some show ?thesis
    by (cases v) (simp_all add: spreadMessages_def typedEntry_def)
qed

text \<open>
  Every storage that the calls of the registry build from the empty storage is typed, and
  its transcripts are capped.
\<close>

lemma typed_reachable: "typed (fold perform cs [])"
  unfolding typed_def using written_typedEntry by (rule kept_reachable)

lemma chatCapped_reachable: "chatCapped (fold perform cs [])"
  unfolding chatCapped_def using written_cappedEntry by (rule kept_reachable)

lemma typed_sendMessage:
  "typed st \<Longrightarrow> typed (snd (sendMessage i sender' msg addr now newId st))"
  unfolding typed_def using written_typedEntry by (rule kept_sendMessage)

lemma typed_applyOps: "typed st \<Longrightarrow> typed (applyOps ops st)"
  unfolding typed_def using written_typedEntry by (rule kept_applyOps)

lemma sendMessage_typed:
  assumes "typed st"
  shows "sendMessage i sender' msg addr now newId st
     = (True, setItem (chat_key i)
          (VChat (slice_last 100
             (getChatMessages i st @ [chatMessage i sender' msg addr now newId]))) st)"
  using typed_chat [OF assms, of i] by (simp add: sendMessage_def Let_def)

lemma getChatMessages_sendMessage:
  assumes "typed st"
  shows "getChatMessages i (snd (sendMessage i sender' msg addr now newId st))
     = slice_last 100 (getChatMessages i st @ [chatMessage i sender' msg addr now newId])"
  by (simp add: sendMessage_typed [OF assms] getChatMessages_setItem)

text \<open>
  The \<^verbatim>\<open>catch\<close> of \<^verbatim>\<open>sendMessage\<close>: when the text under the chat key decodes to a value
  that is not an array, the call returns \<^verbatim>\<open>false\<close> and has written nothing.
\<close>

lemma sendMessage_catch:
  assumes "getItem (chat_key i) st = Some (VStream s)"
  shows "sendMessage i sender' msg addr now newId st = (False, st)"
  using assms by (simp add: sendMessage_def spreadMessages_def)

lemma getChatMessages_sendMessages:
  "typed st \<Longrightarrow> reqs \<noteq> [] \<Longrightarrow> getChatMessages i (sendMessages i reqs st)
     = slice_last 100 (getChatMessages i st @ map (messageOf i) reqs)"
proof (induction reqs arbitrary: st)
  case Nil
  then show ?case by simp
next
  case (Cons q reqs)
  obtain sender' msg addr now newId where q: "q = (sender', msg, addr, now, newId)"
    by (cases q) auto
  let ?st = "snd (sendMessage i sender' msg addr now newId st)"
  have t: "typed ?st"
    using Cons.prems(1) by (rule typed_sendMessage)
  have one: "getChatMessages i ?st = slice_last 100 (getChatMessages i st @ [messageOf i q])"
    using Cons.prems(1) by (simp add: getChatMessages_sendMessage messageOf_def q)
  have step: "sendMessages i (q # reqs) st = sendMessages i reqs ?st"
    by (simp add: sendMessages_def q)
  show ?case
  proof (cases "reqs = []")
    case True
    with one show ?thesis
      by (simp add: step sendMessages_def q)
  next
    case False
    with t have "getChatMessages i (sendMessages i reqs ?st)
        = slice_last 100 (getChatMessages i ?st @ map (messageOf i) reqs)"
      by (rule Cons.IH)
    also have "\<dots> = slice_last 100 ((getChatMessages i st @ [messageOf i q]) @ map (messageOf i) reqs)"
      by (simp only: one slice_last_append)
    finally show ?thesis
      by (simp add: step)
  qed
qed

lemma slice_last_150: "length ms = 150 \<Longrightarrow> slice_last 100 (old @ ms) = drop 50 ms"
  by (simp add: slice_last_def)

lemma messageOf_record:
  "messageOf i = (\<lambda>(sender', msg, addr, now, newId).
      \<lparr> mid = newId, streamId = i, sender = sender', senderAddress = addr, message = msg,
        timestamp = now, mtype = Message \<rparr>)"
  by (simp add: messageOf_def chatMessage_def)

text \<open>
  C7. Starting from a typed storage whose transcripts are capped (the empty storage is
  one, and so is every storage the registry builds), after any sequence of
  \<^verbatim>\<open>sendMessage\<close>, \<^verbatim>\<open>joinStream\<close> and \<^verbatim>\<open>leaveStream\<close> calls every stored transcript has
  at most 100 entries. After 150 \<^verbatim>\<open>sendMessage\<close> calls to one stream, from any typed
  storage, \<^verbatim>\<open>getChatMessages\<close> returns exactly the messages of the last 100 calls, in the
  order they were sent, each with the id, stream id, sender, address, text and time of its
  call and the type \<^verbatim>\<open>message\<close>; what was stored before and the first 50 are dropped.
\<close>

theorem transcript_cap:
  "(chatCapped st \<and> typed st \<longrightarrow>
      chatCapped (applyOps ops st) \<and> typed (applyOps ops st)
      \<and> length (getChatMessages j (applyOps ops st)) \<le> 100)
   \<and> (typed st \<and> length reqs = 150 \<longrightarrow>
        getChatMessages i (sendMessages i reqs st)
          = map (\<lambda>(sender', msg, addr, now, newId).
                   \<lparr> mid = newId, streamId = i, sender = sender', senderAddress = addr,
                     message = msg, timestamp = now, mtype = Message \<rparr>) (drop 50 reqs)
        \<and> length (getChatMessages i (sendMessages i reqs st)) = 100)"
proof (intro conjI impI)
  assume c: "chatCapped st \<and> typed st"
  then show cc: "chatCapped (applyOps ops st)"
    by (simp add: chatCapped_applyOps)
  from c show "typed (applyOps ops st)"
    by (simp add: typed_applyOps)
  from cc show "length (getChatMessages j (applyOps ops st)) \<le> 100"
    by (rule chatCapped_getChatMessages)
next
  assume l: "typed st \<and> length reqs = 150"
  then have "reqs \<noteq> []" by auto
  with l have "getChatMessages i (sendMessages i reqs st)
      = slice_last 100 (getChatMessages i st @ map (messageOf i) reqs)"
    by (simp add: getChatMessages_sendMessages)
  with l have "getChatMessages i (sendMessages i reqs st) = drop 50 (map (messageOf i) reqs)"
    by (simp add: slice_last_150)
  then show eq: "getChatMessages i (sendMessages i reqs st)
      = map (\<lambda>(sender', msg, addr, now, newId).
               \<lparr> mid = newId, streamId = i, sender = sender', senderAddress = addr,
                 message = msg, timestamp = now, mtype = Message \<rparr>) (drop 50 reqs)"
    by (simp only: drop_map messageOf_record)
  from l show "length (getChatMessages i (sendMessages i reqs st)) = 100"
    by (simp add: eq)
qed

text \<open>
  An instance: a join, a message and a leave on a live stream, and 150 numbered messages
  sent to it, of which the messages 50 to 149 are kept.
\<close>

theorem transcript_cap_witness:
  "chatCapped [(stream_key ''a'', VStream (demoStream ''a'' True 50))]
   \<and> typed [(stream_key ''a'', VStream (demoStream ''a'' True 50))]
   \<and> length (getChatMessages ''a''
        (applyOps [JoinStream ''a'' ''Bob'' 60 ''j1'',
                   SendMessage ''a'' ''Bob'' ''hi'' None 61 ''m1'',
                   LeaveStream ''a'' ''Bob'' 62 ''l1'']
           [(stream_key ''a'', VStream (demoStream ''a'' True 50))])) \<le> 100
   \<and> length (map numbered [0..<150]) = 150
   \<and> getChatMessages ''a'' (sendMessages ''a'' (map numbered [0..<150])
        [(stream_key ''a'', VStream (demoStream ''a'' True 50))])
       = map (\<lambda>n. \<lparr> mid = replicate n CHR ''m'', streamId = ''a'', sender = ''Alice'',
                     senderAddress = None, message = replicate n CHR ''x'',
                     timestamp = int n, mtype = Message \<rparr>) [50..<150]"
proof -
  let ?st = "[(stream_key ''a'', VStream (demoStream ''a'' True 50))]"
  have h1: "chatCapped ?st"
    by (simp add: chatCapped_def)
  have h0: "typed ?st"
    by (simp add: typed_def typedEntry_def)
  have h2: "length (map numbered [0..<150]) = 150"
    by simp
  note tc = transcript_cap [of ?st
      "[JoinStream ''a'' ''Bob'' 60 ''j1'', SendMessage ''a'' ''Bob'' ''hi'' None 61 ''m1'',
        LeaveStream ''a'' ''Bob'' 62 ''l1'']" "''a''" "map numbered [0..<150]" "''a''"]
  from tc h1 h0 have r1: "length (getChatMessages ''a''
        (applyOps [JoinStream ''a'' ''Bob'' 60 ''j1'',
                   SendMessage ''a'' ''Bob'' ''hi'' None 61 ''m1'',
                   LeaveStream ''a'' ''Bob'' 62 ''l1''] ?st)) \<le> 100"
    by blast
  from tc h0 h2 have "getChatMessages ''a'' (sendMessages ''a'' (map numbered [0..<150]) ?st)
      = map (\<lambda>(sender', msg, addr, now, newId).
               \<lparr> mid = newId, streamId = ''a'', sender = sender', senderAddress = addr,
                 message = msg, timestamp = now, mtype = Message \<rparr>)
          (drop 50 (map numbered [0..<150]))"
    by blast
  also have "drop 50 (map numbered [0..<150]) = map numbered [50..<150]"
    by (simp only: drop_map drop_upt add_0)
  also have "map (\<lambda>(sender', msg, addr, now, newId).
               \<lparr> mid = newId, streamId = ''a'', sender = sender', senderAddress = addr,
                 message = msg, timestamp = now, mtype = Message \<rparr>) (map numbered [50..<150])
      = map (\<lambda>n. \<lparr> mid = replicate n CHR ''m'', streamId = ''a'', sender = ''Alice'',
                     senderAddress = None, message = replicate n CHR ''x'',
                     timestamp = int n, mtype = Message \<rparr>) [50..<150]"
    unfolding map_map by (rule map_cong) (simp_all add: numbered_def)
  finally have r2: "getChatMessages ''a'' (sendMessages ''a'' (map numbered [0..<150]) ?st)
      = map (\<lambda>n. \<lparr> mid = replicate n CHR ''m'', streamId = ''a'', sender = ''Alice'',
                     senderAddress = None, message = replicate n CHR ''x'',
                     timestamp = int n, mtype = Message \<rparr>) [50..<150]" .
  from h1 h0 r1 h2 r2 show ?thesis
    by (intro conjI)
qed

subsection \<open>sendMessage does not look the stream up\<close>

text \<open>
  C10. \<^verbatim>\<open>sendMessage\<close> has no existence check: for every stream id and every typed
  storage, whether or not a record of that stream is stored, it returns \<^verbatim>\<open>true\<close>, and
  afterwards \<^verbatim>\<open>getChatMessages\<close> of that id returns the previous transcript with the new
  message appended, cut to its last 100 entries. The new message is its last entry and
  carries the id, stream id, sender, address, text and time of the call and the type
  \<^verbatim>\<open>message\<close>. No other key is written.
\<close>

theorem sendMessage_no_existence_check:
  assumes "typed st"
  shows "fst (sendMessage i snd' msg addr now newId st) = True
     \<and> getChatMessages i (snd (sendMessage i snd' msg addr now newId st))
         = slice_last 100 (getChatMessages i st @
             [\<lparr> mid = newId, streamId = i, sender = snd', senderAddress = addr,
                message = msg, timestamp = now, mtype = Message \<rparr>])
     \<and> getChatMessages i (snd (sendMessage i snd' msg addr now newId st)) \<noteq> []
     \<and> last (getChatMessages i (snd (sendMessage i snd' msg addr now newId st)))
         = \<lparr> mid = newId, streamId = i, sender = snd', senderAddress = addr,
             message = msg, timestamp = now, mtype = Message \<rparr>
     \<and> getItem (stream_key j) (snd (sendMessage i snd' msg addr now newId st))
         = getItem (stream_key j) st
     \<and> getItem global_key (snd (sendMessage i snd' msg addr now newId st))
         = getItem global_key st
     \<and> typed (snd (sendMessage i snd' msg addr now newId st))"
proof -
  let ?m = "\<lparr> mid = newId, streamId = i, sender = snd', senderAddress = addr,
              message = msg, timestamp = now, mtype = Message \<rparr>"
  let ?old = "getChatMessages i st"
  let ?st' = "snd (sendMessage i snd' msg addr now newId st)"
  have m: "chatMessage i snd' msg addr now newId = ?m"
    by (simp add: chatMessage_def)
  have s: "sendMessage i snd' msg addr now newId st
      = (True, setItem (chat_key i) (VChat (slice_last 100 (?old @ [?m]))) st)"
    using sendMessage_typed [OF assms, of i snd' msg addr now newId] by (simp only: m)
  have res: "getChatMessages i ?st' = slice_last 100 (?old @ [?m])"
    by (simp add: s getChatMessages_setItem)
  have ne: "slice_last 100 (?old @ [?m]) \<noteq> []"
    by (simp add: slice_last_def)
  have la: "last (slice_last 100 (?old @ [?m])) = ?m"
    by (simp add: slice_last_def)
  have k1: "getItem (stream_key j) ?st' = getItem (stream_key j) st"
    by (simp add: s getItem_setItem_other)
  have k2: "getItem global_key ?st' = getItem global_key st"
    by (simp add: s getItem_setItem_other)
  have t: "typed ?st'"
    using assms by (rule typed_sendMessage)
  from s have f: "fst (sendMessage i snd' msg addr now newId st) = True"
    by simp
  from f res ne la k1 k2 t show ?thesis
    by (simp only:) simp
qed

text \<open>
  An instance: a message to a stream of which the storage holds nothing, and a message to
  a stream that has been ended.
\<close>

theorem sendMessage_no_existence_check_witness:
  "typed []
   \<and> fst (sendMessage ''ghost'' ''Bob'' ''hi'' None 100 ''m1'' []) = True
   \<and> getChatMessages ''ghost'' (snd (sendMessage ''ghost'' ''Bob'' ''hi'' None 100 ''m1'' []))
       = [\<lparr> mid = ''m1'', streamId = ''ghost'', sender = ''Bob'', senderAddress = None,
            message = ''hi'', timestamp = 100, mtype = Message \<rparr>]
   \<and> typed (endStream 90 ''a'' [(stream_key ''a'', VStream (demoStream ''a'' True 50)),
                                  (global_key, VStreams [demoStream ''a'' True 50])])
   \<and> fst (sendMessage ''a'' ''Bob'' ''hi'' None 100 ''m1''
        (endStream 90 ''a'' [(stream_key ''a'', VStream (demoStream ''a'' True 50)),
                             (global_key, VStreams [demoStream ''a'' True 50])])) = True
   \<and> getChatMessages ''a'' (snd (sendMessage ''a'' ''Bob'' ''hi'' None 100 ''m1''
        (endStream 90 ''a'' [(stream_key ''a'', VStream (demoStream ''a'' True 50)),
                             (global_key, VStreams [demoStream ''a'' True 50])])))
       = [\<lparr> mid = ''m1'', streamId = ''a'', sender = ''Bob'', senderAddress = None,
            message = ''hi'', timestamp = 100, mtype = Message \<rparr>]"
proof -
  let ?st = "[(stream_key ''a'', VStream (demoStream ''a'' True 50)),
              (global_key, VStreams [demoStream ''a'' True 50])]"
  have t0: "typed []"
    by (simp add: typed_def)
  have "typed ?st"
    by (simp add: typed_def typedEntry_def)
  then have t1: "typed (endStream 90 ''a'' ?st)"
    unfolding typed_def using written_typedEntry by (intro kept_endStream)
  have c0: "getChatMessages ''ghost'' [] = []"
    by (simp add: getChatMessages_def getItem_def)
  have c1: "getChatMessages ''a'' (endStream 90 ''a'' ?st) = []"
    by (simp add: getChatMessages_def endStream_chat_key)
  note a = sendMessage_no_existence_check [OF t0, of "''ghost''" "''Bob''" "''hi''" None 100 "''m1''"]
  note b = sendMessage_no_existence_check [OF t1, of "''a''" "''Bob''" "''hi''" None 100 "''m1''"]
  from a have a1: "fst (sendMessage ''ghost'' ''Bob'' ''hi'' None 100 ''m1'' []) = True"
    by blast
  from a c0 have a2: "getChatMessages ''ghost''
        (snd (sendMessage ''ghost'' ''Bob'' ''hi'' None 100 ''m1'' []))
      = [\<lparr> mid = ''m1'', streamId = ''ghost'', sender = ''Bob'', senderAddress = None,
            message = ''hi'', timestamp = 100, mtype = Message \<rparr>]"
    by (simp add: slice_last_def)
  from b have b1: "fst (sendMessage ''a'' ''Bob'' ''hi'' None 100 ''m1''
        (endStream 90 ''a'' ?st)) = True"
    by blast
  from b c1 have b2: "getChatMessages ''a'' (snd (sendMessage ''a'' ''Bob'' ''hi'' None 100 ''m1''
        (endStream 90 ''a'' ?st)))
      = [\<lparr> mid = ''m1'', streamId = ''a'', sender = ''Bob'', senderAddress = None,
            message = ''hi'', timestamp = 100, mtype = Message \<rparr>]"
    by (simp add: slice_last_def)
  from t0 a1 a2 t1 b1 b2 show ?thesis
    by (intro conjI)
qed

subsection \<open>Listener isolation\<close>

lemma guardedCall_returns:
  "guardedCall d c e = Returned (stateOf (guardedCall d c e))
   \<and> world (stateOf (guardedCall d c e)) = stateOf (c d (world e))"
  by (cases "c d (world e)") (simp_all add: guardedCall_def)

lemma forEach_guardedCall:
  "forEach (guardedCall d) cs e = Returned (stateOf (forEach (guardedCall d) cs e))
   \<and> world (stateOf (forEach (guardedCall d) cs e)) = invokeAll d cs (world e)"
proof (induction cs arbitrary: e)
  case Nil
  show ?case by (simp add: invokeAll_def)
next
  case (Cons c cs)
  obtain e' where r: "guardedCall d c e = Returned e'" and w: "world e' = stateOf (c d (world e))"
    using guardedCall_returns [of d c e] by metis
  have "forEach (guardedCall d) (c # cs) e = forEach (guardedCall d) cs e'"
    by (simp add: r)
  moreover have "invokeAll d (c # cs) (world e) = invokeAll d cs (world e')"
    by (simp add: invokeAll_def w)
  ultimately show ?case
    using Cons.IH [of e'] by simp
qed

lemma listenersOf_on: "listenersOf (on event c ls) event = listenersOf ls event @ [c]"
  by (simp add: on_def listenersOf_def Let_def split: option.splits)

text \<open>
  C9. An emission calls the callbacks registered for the event once each, in registration
  order (\<^verbatim>\<open>on\<close> appends), every one on the state its predecessor left; a callback that
  throws is caught, so the callbacks after it are still called and
  \<^verbatim>\<open>triggerListeners\<close> itself returns. With two or more subscribers, the second runs on
  the state the first left even when the first threw.
\<close>

theorem listener_isolation:
  "\<not> threw (triggerListeners ls event d e)
   \<and> world (stateOf (triggerListeners ls event d e)) = invokeAll d (listenersOf ls event) (world e)
   \<and> listenersOf (on event c2 (on event c1 ls)) event = listenersOf ls event @ [c1, c2]
   \<and> (ls event = Some (c1 # c2 # cs) \<longrightarrow>
        world (stateOf (triggerListeners ls event d e))
          = invokeAll d cs (stateOf (c2 d (stateOf (c1 d (world e))))))"
proof -
  let ?cs = "listenersOf ls event"
  have t: "triggerListeners ls event d e = forEach (guardedCall d) ?cs e"
    by (simp add: triggerListeners_def listenersOf_def Let_def)
  have r: "forEach (guardedCall d) ?cs e = Returned (stateOf (forEach (guardedCall d) ?cs e))"
    and w: "world (stateOf (forEach (guardedCall d) ?cs e)) = invokeAll d ?cs (world e)"
    using forEach_guardedCall [of d ?cs e] by simp_all
  have "\<not> threw (forEach (guardedCall d) ?cs e)"
    by (subst r) simp
  moreover have "ls event = Some (c1 # c2 # cs) \<longrightarrow>
      invokeAll d ?cs (world e) = invokeAll d cs (stateOf (c2 d (stateOf (c1 d (world e)))))"
    by (simp add: listenersOf_def invokeAll_def)
  ultimately show ?thesis
    using t w by (simp add: listenersOf_on)
qed

text \<open>
  An instance: the first of two subscribers throws; the second is still called, after it,
  the error is logged, and the emission returns.
\<close>

theorem listener_isolation_witness:
  "on ''newMessage'' secondSubscriber (on ''newMessage'' failingSubscriber Map.empty) ''newMessage''
     = Some (failingSubscriber # secondSubscriber # [])
   \<and> threw (failingSubscriber ''hello'' [])
   \<and> \<not> threw (triggerListeners
        (on ''newMessage'' secondSubscriber (on ''newMessage'' failingSubscriber Map.empty))
        ''newMessage'' ''hello'' \<lparr>world = [], console = []\<rparr>)
   \<and> world (stateOf (triggerListeners
        (on ''newMessage'' secondSubscriber (on ''newMessage'' failingSubscriber Map.empty))
        ''newMessage'' ''hello'' \<lparr>world = [], console = []\<rparr>))
       = [''first saw hello'', ''second saw hello'']"
proof -
  let ?ls = "on ''newMessage'' secondSubscriber (on ''newMessage'' failingSubscriber Map.empty)"
  have h: "?ls ''newMessage'' = Some (failingSubscriber # secondSubscriber # [])"
    by (simp add: on_def Let_def)
  have f: "threw (failingSubscriber ''hello'' [])"
    by (simp add: failingSubscriber_def)
  have v: "invokeAll ''hello'' []
      (stateOf (secondSubscriber ''hello'' (stateOf (failingSubscriber ''hello'' []))))
      = [''first saw hello'', ''second saw hello'']"
    by (simp add: invokeAll_def failingSubscriber_def secondSubscriber_def)
  note li = listener_isolation [where ls = ?ls and event = "''newMessage''" and d = "''hello''"
      and e = "\<lparr>world = [], console = []\<rparr>" and ?c1.0 = failingSubscriber
      and ?c2.0 = secondSubscriber and cs = "[]"]
  from li have a: "\<not> threw (triggerListeners ?ls ''newMessage'' ''hello''
      \<lparr>world = [], console = []\<rparr>)"
    by (rule conjunct1)
  from li h have "world (stateOf (triggerListeners ?ls ''newMessage'' ''hello''
      \<lparr>world = [], console = []\<rparr>))
      = invokeAll ''hello'' []
          (stateOf (secondSubscriber ''hello'' (stateOf (failingSubscriber ''hello''
             (world \<lparr>world = [], console = []\<rparr>)))))"
    by blast
  then have b: "world (stateOf (triggerListeners ?ls ''newMessage'' ''hello''
      \<lparr>world = [], console = []\<rparr>)) = [''first saw hello'', ''second saw hello'']"
    using v by simp
  from h f a b show ?thesis
    by (intro conjI)
qed

subsection \<open>Rewriting storages\<close>

lemma removeItem_setItem_same: "removeItem k (setItem k v st) = removeItem k st"
proof -
  have "filter (\<lambda>(a, b). a \<noteq> k) (map (\<lambda>(a, b). if a = k then (a, v) else (a, b)) st)
      = filter (\<lambda>(a, b). a \<noteq> k) st"
    by (induction st) auto
  then show ?thesis
    by (simp add: removeItem_def setItem_def)
qed

lemma fst_set_removeItem: "fst ` set (removeItem k st) = fst ` set st - {k}"
  by (induction st) (auto simp: removeItem_def)

lemma removeItem_setItem_other:
  assumes "k \<noteq> k'"
  shows "removeItem k (setItem k' v st) = setItem k' v (removeItem k st)"
proof -
  have m: "filter (\<lambda>(a, b). a \<noteq> k) (map (\<lambda>(a, b). if a = k' then (a, v) else (a, b)) st)
      = map (\<lambda>(a, b). if a = k' then (a, v) else (a, b)) (filter (\<lambda>(a, b). a \<noteq> k) st)"
    using assms by (induction st) (auto split: if_splits)
  have "(k' \<in> fst ` set (removeItem k st)) = (k' \<in> fst ` set st)"
    using assms by (simp add: fst_set_removeItem)
  then show ?thesis
    using assms m by (auto simp: setItem_def removeItem_def)
qed

lemma removeItem_commute: "removeItem k (removeItem k' st) = removeItem k' (removeItem k st)"
  by (induction st) (auto simp: removeItem_def)

lemma fst_set_setItem: "fst ` set (setItem k v st) = insert k (fst ` set st)"
  by (auto simp: setItem_def image_iff split: if_splits) force+

lemma setItem_setItem_same: "setItem k v (setItem k v' st) = setItem k v st"
proof (cases "k \<in> fst ` set st")
  case True
  then have "k \<in> fst ` set (setItem k v' st)"
    by (simp add: fst_set_setItem)
  moreover have "map (\<lambda>(a, b). if a = k then (a, v) else (a, b))
      (map (\<lambda>(a, b). if a = k then (a, v') else (a, b)) st)
      = map (\<lambda>(a, b). if a = k then (a, v) else (a, b)) st"
    by (induction st) auto
  ultimately show ?thesis
    using True by (simp add: setItem_def)
next
  case False
  then have "map (\<lambda>(a, b). if a = k then (a, v) else (a, b)) st = st"
    by (induction st) auto
  with False show ?thesis
    by (simp add: setItem_def)
qed

lemma mergeUpdates_isLive:
  "mergeUpdates s (noUpdates\<lparr>p_isLive := Some b\<rparr>) now = s\<lparr>isLive := b, lastUpdate := now\<rparr>"
  by (simp add: mergeUpdates_def noUpdates_def)

lemma mergeUpdates_viewerCount:
  "mergeUpdates s (noUpdates\<lparr>p_viewerCount := Some c\<rparr>) now
     = s\<lparr>viewerCount := c, lastUpdate := now\<rparr>"
  by (simp add: mergeUpdates_def noUpdates_def)

subsection \<open>Broadcast handlers and local calls\<close>

lemma endStream_no_record:
  assumes "\<not> hasRecord i st"
  shows "removeStreamFromBroadcast i st = endStream now i st"
proof -
  have u: "updateStream now i (noUpdates\<lparr>p_isLive := Some False\<rparr>) st = (False, st)"
    using assms
    by (auto simp: updateStream_def hasRecord_def split: option.splits StoredValue.splits)
  have g: "getItem global_key (removeItem (chat_key i) (removeItem (stream_key i) st))
      = getItem global_key st"
    by (simp add: getItem_removeItem_other)
  show ?thesis
    unfolding removeStreamFromBroadcast_def endStream_def Let_def u g
    by (simp add: removeItem_setItem_other split: option.splits)
qed

lemma endStream_record:
  assumes r: "getItem (stream_key i) st = Some (VStream s)" and k: "sid s = i"
  shows "endStream now i st =
     (let st' = removeItem (chat_key i) (removeItem (stream_key i) st)
      in setItem global_key (VStreams (filter (\<lambda>x. sid x \<noteq> i) (indexOf st))) st')"
proof -
  let ?s' = "s\<lparr>isLive := False, lastUpdate := now\<rparr>"
  let ?F = "VStreams (filter (\<lambda>x. sid x \<noteq> i) (indexOf st))"
  let ?st0 = "setItem (stream_key i) (VStream ?s') st"
  have g0: "getItem global_key ?st0 = getItem global_key st"
    by (simp add: getItem_setItem_other)
  have ix: "(case getItem global_key st of None \<Rightarrow> []
       | Some e \<Rightarrow> if e = Empty then [] else (case parseStreams e of None \<Rightarrow> [] | Some xs \<Rightarrow> xs))
      = indexOf st"
    by (auto simp: indexOf_def split: option.splits StoredValue.splits)
  have st1: "snd (updateStream now i (noUpdates\<lparr>p_isLive := Some False\<rparr>) st)
      = setItem global_key ?F ?st0"
    using r k by (simp add: updateStream_def mergeUpdates_isLive storeStream_def Let_def g0 ix)
  have g1: "getItem global_key (setItem global_key ?F ?st0) = Some ?F"
    by (rule getItem_setItem_same)
  have "endStream now i st
      = removeItem (chat_key i) (removeItem (stream_key i) (setItem global_key ?F ?st0))"
    unfolding endStream_def Let_def st1 g1
    by (simp add: setItem_setItem_same)
  also have "\<dots> = setItem global_key ?F (removeItem (chat_key i) (removeItem (stream_key i) st))"
    by (simp add: removeItem_setItem_other removeItem_setItem_same)
  finally show ?thesis
    by (simp add: Let_def)
qed

lemma removeStreamFromBroadcast_decodes:
  assumes "indexDecodes st"
  shows "removeStreamFromBroadcast i st =
     setItem global_key (VStreams (filter (\<lambda>x. sid x \<noteq> i) (indexOf st)))
       (removeItem (chat_key i) (removeItem (stream_key i) st))"
proof -
  have g: "getItem global_key (removeItem (chat_key i) (removeItem (stream_key i) st))
      = getItem global_key st"
    by (simp add: getItem_removeItem_other)
  from assms show ?thesis
    unfolding removeStreamFromBroadcast_def Let_def g
    by (auto simp: indexDecodes_def indexOf_def split: option.splits StoredValue.splits)
qed

lemma removeStreamFromBroadcast_undecodable:
  assumes "\<not> indexDecodes st"
  shows "removeStreamFromBroadcast i st
     = removeItem (chat_key i) (removeItem (stream_key i) st)"
proof -
  have g: "getItem global_key (removeItem (chat_key i) (removeItem (stream_key i) st))
      = getItem global_key st"
    by (simp add: getItem_removeItem_other)
  from assms show ?thesis
    unfolding removeStreamFromBroadcast_def Let_def g
    by (auto simp: indexDecodes_def split: option.splits StoredValue.splits)
qed

lemma indexOf_undecodable: "\<not> indexDecodes st \<Longrightarrow> indexOf st = []"
  by (auto simp: indexDecodes_def indexOf_def split: option.splits StoredValue.splits)

lemma hasRecord_wellKeyed:
  assumes "wellKeyed st" and "hasRecord i st"
  shows "\<exists>s. getItem (stream_key i) st = Some (VStream s) \<and> sid s = i"
proof -
  from assms(2) obtain s where s: "getItem (stream_key i) st = Some (VStream s)"
    by (auto simp: hasRecord_def split: option.splits StoredValue.splits)
  with assms(1) have "stream_key i = stream_key (sid s)"
    by (rule wellKeyed_getItem)
  with s show ?thesis by auto
qed

subsection \<open>Streams the lookup finds\<close>

lemma vouched_young:
  assumes "indexAgrees st" and "vouched now st r"
  shows "now - startTime r < maxAge"
proof -
  from assms(2) obtain e where e: "e \<in> set (indexOf st)" "now - startTime e < maxAge"
      "getItem (stream_key (sid e)) st = Some (VStream r)"
    by (auto simp: vouched_def)
  with assms(1) have "startTime e = startTime r"
    by (auto simp: indexAgrees_def list_all_iff)
  with e(2) show ?thesis by simp
qed

lemma found_active:
  assumes "wellKeyed st" and "indexAgrees st"
    and "r \<in> set (fst (getAllStreamsFromStorage now st))"
  shows "getItem (stream_key (sid r)) st = Some (VStream r) \<and> isLive r
     \<and> now - startTime r < maxAge"
proof -
  from assms(3) have s: "isLive r" "vouched now st r \<or> scanned now st r"
    using getAllStreamsFromStorage_sound by blast+
  from s(2) have "now - startTime r < maxAge"
    using vouched_young [OF assms(2)] by (auto simp: scanned_def)
  with s(1) found_stored [OF assms(1,3)] show ?thesis by simp
qed

lemma active_kept:
  assumes "indexAgrees st" and r: "getItem (stream_key i) st = Some (VStream r)"
    and l: "isLive r" and y: "now - startTime r < maxAge"
  shows "getItem (stream_key i) (snd (getAllStreamsFromStorage now st)) = Some (VStream r)"
proof -
  have "\<not> removable now st (stream_key i)"
  proof
    assume "removable now st (stream_key i)"
    then consider
      (entry) e where "e \<in> set (indexOf st)" "stream_key i = stream_key (sid e)"
        "now - startTime e \<ge> maxAge"
      | (stored) "doomed now (VStream r)"
      using r by (auto simp: removable_def)
    then show False
    proof cases
      case entry
      with assms(1) r have "startTime e = startTime r"
        by (auto simp: indexAgrees_def list_all_iff)
      with entry(3) y show False by simp
    next
      case stored
      with l y show False by (simp add: doomed_def)
    qed
  qed
  then show ?thesis
    using getAllStreamsFromStorage_other [of "stream_key i" now st] r by auto
qed

lemma updateStream_viewerCount:
  assumes "getItem (stream_key i) st = Some (VStream r)" and "sid r = i"
  shows "getItem (stream_key i)
       (snd (updateStream now i (noUpdates\<lparr>p_viewerCount := Some c\<rparr>) st))
     = Some (VStream (r\<lparr>viewerCount := c, lastUpdate := now\<rparr>))"
  using assms
  by (simp add: updateStream_def mergeUpdates_viewerCount storeStream_def Let_def
      getItem_setItem_same getItem_setItem_other)

lemma find_sid_None: "(find (\<lambda>s. sid s = i) xs = None) = (i \<notin> sid ` set xs)"
  by (auto simp: find_None_iff)

lemma find_sid_Some: "find (\<lambda>s. sid s = i) xs = Some r \<Longrightarrow> r \<in> set xs \<and> sid r = i"
  by (auto simp: find_Some_iff)

lemma joinStream_not_found:
  "i \<notin> sid ` set (fst (getAllActiveStreams now st))
     \<Longrightarrow> joinStream i v now newId st = (Inr False, snd (getAllActiveStreams now st))"
  by (cases "getAllActiveStreams now st") (simp add: joinStream_def find_sid_None [symmetric])

lemma leaveStream_not_found:
  "i \<notin> sid ` set (fst (getAllActiveStreams now st))
     \<Longrightarrow> leaveStream i v now newId st = (Inr False, snd (getAllActiveStreams now st))"
  by (cases "getAllActiveStreams now st") (simp add: leaveStream_def find_sid_None [symmetric])

lemma inactive_not_found:
  assumes "wellKeyed st" and "indexAgrees st" and "\<not> activeRecord now i st"
  shows "i \<notin> sid ` set (fst (getAllActiveStreams now st))"
proof
  assume "i \<in> sid ` set (fst (getAllActiveStreams now st))"
  then obtain r where "r \<in> set (fst (getAllStreamsFromStorage now st))" and "sid r = i"
    by (auto simp: getAllActiveStreams_def)
  then have "activeRecord now i st"
    using found_active [OF assms(1,2)] by (auto simp: activeRecord_def)
  with assms(3) show False by simp
qed

lemma getChatMessages_getAllStreamsFromStorage:
  "getChatMessages j (snd (getAllStreamsFromStorage now st)) = getChatMessages j st"
proof -
  have "\<not> removable now st (chat_key j)"
    by (simp add: removable_def)
  then have "getItem (chat_key j) (snd (getAllStreamsFromStorage now st)) = getItem (chat_key j) st"
    using getAllStreamsFromStorage_other [of "chat_key j" now st] by auto
  then show ?thesis
    by (simp add: getChatMessages_def)
qed

subsection \<open>Joining or leaving a stream that is not active\<close>

text \<open>
  C6, as the code has it. When the lookup (\<^verbatim>\<open>getAllActiveStreams\<close>) returns no record of
  the id, which is the case in a well-keyed storage with an agreeing global list whenever
  the id has no live record younger than 24 hours, \<^verbatim>\<open>joinStream\<close> and \<^verbatim>\<open>leaveStream\<close>
  return \<^verbatim>\<open>false\<close> and leave the storage as that lookup leaves it. The lookup changes no
  viewer count, appends no chat message and creates or modifies no record: every key but
  the global list keeps its value or is deleted because it is removable, and every
  transcript reads as before. The global list is rewritten.
\<close>

theorem inactive_join_leave:
  "(i \<notin> sid ` set (fst (getAllActiveStreams now st)) \<longrightarrow>
      joinStream i v now newId st = (Inr False, snd (getAllActiveStreams now st))
      \<and> leaveStream i v now newId st = (Inr False, snd (getAllActiveStreams now st)))
   \<and> (wellKeyed st \<and> indexAgrees st \<and> \<not> activeRecord now i st \<longrightarrow>
        i \<notin> sid ` set (fst (getAllActiveStreams now st)))
   \<and> (k \<noteq> global_key \<longrightarrow>
        getItem k (snd (getAllActiveStreams now st)) = getItem k st
        \<or> (getItem k (snd (getAllActiveStreams now st)) = None \<and> removable now st k))
   \<and> getChatMessages j (snd (getAllActiveStreams now st)) = getChatMessages j st
   \<and> getItem global_key (snd (getAllActiveStreams now st))
       = Some (VStreams (fst (getAllActiveStreams now st)))"
proof (intro conjI impI)
  assume nf: "i \<notin> sid ` set (fst (getAllActiveStreams now st))"
  then show "joinStream i v now newId st = (Inr False, snd (getAllActiveStreams now st))"
    by (rule joinStream_not_found)
  from nf show "leaveStream i v now newId st = (Inr False, snd (getAllActiveStreams now st))"
    by (rule leaveStream_not_found)
next
  assume "wellKeyed st \<and> indexAgrees st \<and> \<not> activeRecord now i st"
  then show "i \<notin> sid ` set (fst (getAllActiveStreams now st))"
    using inactive_not_found by blast
next
  assume "k \<noteq> global_key"
  then show "getItem k (snd (getAllActiveStreams now st)) = getItem k st
      \<or> (getItem k (snd (getAllActiveStreams now st)) = None \<and> removable now st k)"
    unfolding getAllActiveStreams_def by (rule getAllStreamsFromStorage_other)
next
  show "getChatMessages j (snd (getAllActiveStreams now st)) = getChatMessages j st"
    by (simp add: getAllActiveStreams_def getChatMessages_getAllStreamsFromStorage)
next
  show "getItem global_key (snd (getAllActiveStreams now st))
      = Some (VStreams (fst (getAllActiveStreams now st)))"
    by (simp add: getAllActiveStreams_def getAllStreamsFromStorage_global)
qed

text \<open>
  The claim as stated fails already on the empty storage: joining a stream that does not
  exist returns \<^verbatim>\<open>false\<close>, and the storage then holds a global list.
\<close>

theorem inactive_join_leave_counterexample:
  "joinStream ''x'' ''Bob'' 100 ''j1'' [] = (Inr False, [(global_key, VStreams [])])
   \<and> leaveStream ''x'' ''Bob'' 100 ''l1'' [] = (Inr False, [(global_key, VStreams [])])
   \<and> snd (joinStream ''x'' ''Bob'' 100 ''j1'' []) \<noteq> []"
  by (simp add: joinStream_def leaveStream_def getAllActiveStreams_def
      getAllStreamsFromStorage_def index_pass_def scan.simps getItem_def setItem_def)

text \<open>
  An instance: the record of \<open>a\<close> is stored but not live, and \<open>a\<close> has a transcript.
\<close>

theorem inactive_join_leave_witness:
  "wellKeyed [(stream_key ''a'', VStream (demoStream ''a'' False 50)),
              (chat_key ''a'', VChat [chatMessage ''a'' ''Alice'' ''hello'' None 60 ''m1''])]
   \<and> indexAgrees [(stream_key ''a'', VStream (demoStream ''a'' False 50)),
              (chat_key ''a'', VChat [chatMessage ''a'' ''Alice'' ''hello'' None 60 ''m1''])]
   \<and> \<not> activeRecord 100 ''a'' [(stream_key ''a'', VStream (demoStream ''a'' False 50)),
              (chat_key ''a'', VChat [chatMessage ''a'' ''Alice'' ''hello'' None 60 ''m1''])]
   \<and> ''a'' \<notin> sid ` set (fst (getAllActiveStreams 100
             [(stream_key ''a'', VStream (demoStream ''a'' False 50)),
              (chat_key ''a'', VChat [chatMessage ''a'' ''Alice'' ''hello'' None 60 ''m1''])]))
   \<and> fst (joinStream ''a'' ''Bob'' 100 ''j1''
             [(stream_key ''a'', VStream (demoStream ''a'' False 50)),
              (chat_key ''a'', VChat [chatMessage ''a'' ''Alice'' ''hello'' None 60 ''m1''])]) = Inr False
   \<and> fst (leaveStream ''a'' ''Bob'' 100 ''l1''
             [(stream_key ''a'', VStream (demoStream ''a'' False 50)),
              (chat_key ''a'', VChat [chatMessage ''a'' ''Alice'' ''hello'' None 60 ''m1''])]) = Inr False
   \<and> chat_key ''a'' \<noteq> global_key
   \<and> getChatMessages ''a'' (snd (joinStream ''a'' ''Bob'' 100 ''j1''
             [(stream_key ''a'', VStream (demoStream ''a'' False 50)),
              (chat_key ''a'', VChat [chatMessage ''a'' ''Alice'' ''hello'' None 60 ''m1''])]))
       = [chatMessage ''a'' ''Alice'' ''hello'' None 60 ''m1'']"
proof -
  let ?st = "[(stream_key ''a'', VStream (demoStream ''a'' False 50)),
              (chat_key ''a'', VChat [chatMessage ''a'' ''Alice'' ''hello'' None 60 ''m1''])]"
  have h1: "wellKeyed ?st"
    by (simp add: wellKeyed_def demoStream_def)
  have h2: "indexAgrees ?st"
    by (simp add: indexAgrees_def indexOf_def getItem_def)
  have h3: "\<not> activeRecord 100 ''a'' ?st"
    by (simp add: activeRecord_def getItem_def demoStream_def)
  have h4: "chat_key ''a'' \<noteq> global_key"
    by simp
  have c: "getChatMessages ''a'' ?st = [chatMessage ''a'' ''Alice'' ''hello'' None 60 ''m1'']"
    by (simp add: getChatMessages_def getItem_def)
  note th = inactive_join_leave [of "''a''" 100 ?st "''Bob''" _ "chat_key ''a''" "''a''"]
  from th h1 h2 h3 have nf: "''a'' \<notin> sid ` set (fst (getAllActiveStreams 100 ?st))"
    by blast
  from th nf have j: "joinStream ''a'' ''Bob'' 100 ''j1'' ?st
      = (Inr False, snd (getAllActiveStreams 100 ?st))"
    using inactive_join_leave [of "''a''" 100 ?st "''Bob''" "''j1''"] by blast
  from nf have l: "leaveStream ''a'' ''Bob'' 100 ''l1'' ?st
      = (Inr False, snd (getAllActiveStreams 100 ?st))"
    using inactive_join_leave [of "''a''" 100 ?st "''Bob''" "''l1''"] by blast
  from th have "getChatMessages ''a'' (snd (getAllActiveStreams 100 ?st))
      = getChatMessages ''a'' ?st"
    by blast
  with j c have m: "getChatMessages ''a'' (snd (joinStream ''a'' ''Bob'' 100 ''j1'' ?st))
      = [chatMessage ''a'' ''Alice'' ''hello'' None 60 ''m1'']"
    by simp
  from j have jf: "fst (joinStream ''a'' ''Bob'' 100 ''j1'' ?st) = Inr False" by simp
  from l have lf: "fst (leaveStream ''a'' ''Bob'' 100 ''l1'' ?st) = Inr False" by simp
  from h1 h2 h3 nf jf lf h4 m show ?thesis
    by (intro conjI)
qed

subsection \<open>Viewer counts\<close>

lemma nonnegEntry_simps [simp]:
  "nonnegEntry (k, VStream s) = (0 \<le> viewerCount s)"
  "nonnegEntry (k, VStreams xs)" "nonnegEntry (k, VChat ms)" "nonnegEntry (k, Empty)"
  "nonnegEntry (k, Corrupt)"
  by (simp_all add: nonnegEntry_def)

lemma countsNonneg_getItem:
  "countsNonneg st \<Longrightarrow> getItem k st = Some (VStream s) \<Longrightarrow> 0 \<le> viewerCount s"
  by (auto simp: countsNonneg_def list_all_iff dest!: getItem_in_set)

lemma countsNonneg_updateStream:
  assumes "countsNonneg st" and "0 \<le> c"
  shows "countsNonneg (snd (updateStream now i (noUpdates\<lparr>p_viewerCount := Some c\<rparr>) st))"
  using assms unfolding countsNonneg_def
  by (auto simp: updateStream_def mergeUpdates_viewerCount intro!: list_all_storeStream
      split: option.splits)

lemma countsNonneg_getAllActiveStreams:
  "countsNonneg st \<Longrightarrow> countsNonneg (snd (getAllActiveStreams now st))"
  unfolding countsNonneg_def getAllActiveStreams_def
  by (rule list_all_getAllStreamsFromStorage) simp_all

lemma countsNonneg_append:
  "countsNonneg st \<Longrightarrow> countsNonneg (setItem (chat_key i) (VChat ms) st)"
  unfolding countsNonneg_def by (rule list_all_setItem) simp_all

lemma countsNonneg_leaveStream:
  assumes "countsNonneg st"
  shows "countsNonneg (snd (leaveStream i viewer now newId st))"
proof (cases rule: leaveStream_shape [of i now st viewer newId])
  case missing
  with assms show ?thesis by (simp add: countsNonneg_getAllActiveStreams)
next
  case (threw r st2)
  with assms show ?thesis
    by (simp add: countsNonneg_getAllActiveStreams countsNonneg_updateStream)
next
  case (left r st2)
  with assms show ?thesis
    by (simp add: countsNonneg_getAllActiveStreams countsNonneg_updateStream
        countsNonneg_append)
qed

lemma countsNonneg_leaveStreams: "countsNonneg st \<Longrightarrow> countsNonneg (leaveStreams calls st)"
  unfolding leaveStreams_def
  by (induction calls arbitrary: st) (auto simp: countsNonneg_leaveStream)

lemma found_updated:
  assumes wk: "wellKeyed st" and ia: "indexAgrees st"
    and f: "find (\<lambda>s. sid s = i) (fst (getAllActiveStreams now st)) = Some r"
  shows "getItem (stream_key i) st = Some (VStream r) \<and> isLive r
     \<and> now - startTime r < maxAge
     \<and> getItem (stream_key i)
         (snd (updateStream now i (noUpdates\<lparr>p_viewerCount := Some c\<rparr>)
            (snd (getAllActiveStreams now st))))
       = Some (VStream (r\<lparr>viewerCount := c, lastUpdate := now\<rparr>))"
proof -
  from f have r: "r \<in> set (fst (getAllStreamsFromStorage now st))" and i: "sid r = i"
    using find_sid_Some [of i _ r] by (simp_all add: getAllActiveStreams_def)
  from found_active [OF wk ia r] i
  have a: "getItem (stream_key i) st = Some (VStream r)" "isLive r" "now - startTime r < maxAge"
    by simp_all
  have "getItem (stream_key i) (snd (getAllStreamsFromStorage now st)) = Some (VStream r)"
    using ia a by (rule active_kept)
  then have "getItem (stream_key i)
      (snd (updateStream now i (noUpdates\<lparr>p_viewerCount := Some c\<rparr>)
         (snd (getAllStreamsFromStorage now st))))
      = Some (VStream (r\<lparr>viewerCount := c, lastUpdate := now\<rparr>))"
    using i by (rule updateStream_viewerCount)
  with a show ?thesis
    by (simp add: getAllActiveStreams_def)
qed

subsection \<open>The scan up to the first deletion\<close>

lemma scan_step_keep:
  assumes "getItem k st = Some v" and "\<not> doomed now v"
  shows "fst (scan_step now k (st, streams, ids)) = st"
  using assms by (auto simp: scan_step_def doomed_def Let_def split: option.splits)

lemma scan_step_drop:
  assumes "getItem k st = Some v" and "doomed now v"
  shows "scan_step now k (st, streams, ids) = (removeItem k st, streams, ids)"
  using assms by (auto simp: scan_step_def doomed_def Let_def split: option.splits)

lemma getItem_nth: "i < length st \<Longrightarrow> \<exists>v. getItem (fst (st ! i)) st = Some v"
proof -
  assume "i < length st"
  then have "fst (st ! i) \<in> fst ` set st"
    by (simp add: image_iff) (metis nth_mem)
  then show ?thesis
    by (cases "map_of st (fst (st ! i))") (auto simp: getItem_def map_of_eq_None_iff)
qed

lemma scan_to:
  assumes "i \<le> j" and "j \<le> length st" and "\<forall>m. i \<le> m \<and> m < j \<longrightarrow> \<not> doomedAt now st m"
  shows "\<exists>streams' ids'. scan now i (st, streams, ids) = scan now j (st, streams', ids')"
  using assms
proof (induction "j - i" arbitrary: i streams ids)
  case 0
  then have "i = j" by simp
  then show ?case by blast
next
  case (Suc n)
  then have lt: "i < j" "i < length st" by simp_all
  have n: "n = j - Suc i" using Suc.hyps(2) by simp
  have rest: "\<forall>m. Suc i \<le> m \<and> m < j \<longrightarrow> \<not> doomedAt now st m"
    using Suc.prems(3) by simp
  have here: "\<not> doomedAt now st i"
    using Suc.prems(3) lt by simp
  show ?case
  proof (cases "prefix stream_prefix (fst (st ! i))")
    case False
    then have "scan now i (st, streams, ids) = scan now (Suc i) (st, streams, ids)"
      using lt(2) by (simp add: scan.simps [of now i])
    moreover have "\<exists>streams' ids'. scan now (Suc i) (st, streams, ids) = scan now j (st, streams', ids')"
      using Suc.hyps(1) [OF n _ Suc.prems(2) rest] lt(1) by simp
    ultimately show ?thesis by simp
  next
    case True
    obtain v where v: "getItem (fst (st ! i)) st = Some v"
      using getItem_nth [OF lt(2)] by blast
    with here True have nd: "\<not> doomed now v"
      by (simp add: doomedAt_def)
    obtain st1 streams1 ids1 where
      s1: "scan_step now (fst (st ! i)) (st, streams, ids) = (st1, streams1, ids1)"
      by (cases "scan_step now (fst (st ! i)) (st, streams, ids)") auto
    have "st1 = st"
      using scan_step_keep [OF v nd, of streams ids] s1 by simp
    with s1 True lt(2) have "scan now i (st, streams, ids) = scan now (Suc i) (st, streams1, ids1)"
      by (simp add: scan.simps [of now i])
    moreover have "\<exists>streams' ids'. scan now (Suc i) (st, streams1, ids1)
        = scan now j (st, streams', ids')"
      using Suc.hyps(1) [OF n _ Suc.prems(2) rest] lt(1) by simp
    ultimately show ?thesis by simp
  qed
qed

lemma getItem_None_subset: "set st' \<subseteq> set st \<Longrightarrow> getItem k st = None \<Longrightarrow> getItem k st' = None"
  by (auto simp: getItem_def map_of_eq_None_iff)

lemma index_pass_undecodable: "\<not> indexDecodes (fst s) \<Longrightarrow> index_pass now s = s"
  by (auto simp: index_pass_def indexDecodes_def split: option.splits StoredValue.splits)

lemma first_doomed_deleted:
  assumes nd: "\<not> indexDecodes st" and fd: "firstDoomed now st j"
  shows "getItem (fst (st ! j)) (snd (getAllStreamsFromStorage now st)) = None"
proof -
  let ?k = "fst (st ! j)"
  from fd have j: "j < length st" and d: "doomedAt now st j"
    and before: "\<forall>m. 0 \<le> m \<and> m < j \<longrightarrow> \<not> doomedAt now st m"
    by (auto simp: firstDoomed_def list_all_iff)
  from d have p: "prefix stream_prefix ?k" and "\<exists>v. getItem ?k st = Some v \<and> doomed now v"
    by (auto simp: doomedAt_def split: option.splits)
  then obtain v where v: "getItem ?k st = Some v" "doomed now v" by blast
  obtain streams' ids' where
    to: "scan now 0 (st, [], {}) = scan now j (st, streams', ids')"
    using scan_to [OF _ _ before, of "[]" "{}"] j by auto
  have "scan now j (st, streams', ids') = scan now (Suc j) (removeItem ?k st, streams', ids')"
    using j p scan_step_drop [OF v] by (simp add: scan.simps [of now j])
  with to have sc: "scan now 0 (st, [], {}) = scan now (Suc j) (removeItem ?k st, streams', ids')"
    by simp
  have "getItem ?k (fst (scan now (Suc j) (removeItem ?k st, streams', ids'))) = None"
    using set_scan [of now "Suc j" "(removeItem ?k st, streams', ids')"]
    by (auto intro: getItem_None_subset simp: getItem_removeItem_same)
  with sc have gone: "getItem ?k (fst (scan now 0 (index_pass now (st, [], {})))) = None"
    using nd by (simp add: index_pass_undecodable)
  have "?k \<noteq> global_key"
    using p by auto
  then show ?thesis
    using gone
    by (cases "scan now 0 (index_pass now (st, [], {}))")
       (simp add: getAllStreamsFromStorage_def Let_def getItem_setItem_other)
qed

subsection \<open>Undecodable values\<close>

lemma updateStream_undecodable:
  "getItem (stream_key i) st = Some v \<Longrightarrow> parseStream v = None
     \<Longrightarrow> updateStream now i u st = (False, st)"
  by (simp add: updateStream_def)

lemma getChatMessages_undecodable:
  "getItem (chat_key i) st = Some v \<Longrightarrow> parseChat v = None \<Longrightarrow> getChatMessages i st = []"
  by (simp add: getChatMessages_def)

lemma storeStream_undecodable:
  assumes "\<not> indexDecodes st"
  shows "getItem global_key (storeStream s st) = Some (VStreams (if isLive s then [s] else []))"
proof -
  have "getItem global_key (setItem (stream_key (sid s)) (VStream s) st) = getItem global_key st"
    by (simp add: getItem_setItem_other)
  with assms show ?thesis
    by (auto simp: storeStream_def Let_def getItem_setItem_same indexDecodes_def
        split: option.splits StoredValue.splits)
qed

lemma undecodable_scanned:
  assumes "\<not> indexDecodes st" and "r \<in> set (fst (getAllStreamsFromStorage now st))"
  shows "scanned now st r"
proof -
  have "\<not> vouched now st r"
    using assms(1) by (simp add: vouched_def indexOf_undecodable)
  with assms(2) show ?thesis
    using getAllStreamsFromStorage_sound by blast
qed

lemma index_steps_delete:
  assumes v: "getItem k st0 = Some v" "v \<noteq> Empty" "parseStream v = None"
    and k: "k = stream_key (sid e)"
    and e: "isLive e" "sid e \<noteq> []" "now - startTime e < maxAge"
    and s: "getItem k (fst s) = None \<or> (getItem k (fst s) = Some v \<and> sid e \<notin> snd (snd s))"
  shows "(getItem k (fst (fold (index_step now) es s)) = None
          \<or> (getItem k (fst (fold (index_step now) es s)) = Some v
              \<and> sid e \<notin> snd (snd (fold (index_step now) es s))))
     \<and> (e \<in> set es \<longrightarrow> getItem k (fst (fold (index_step now) es s)) = None)"
  using s
proof (induction es arbitrary: s)
  case Nil
  then show ?case by simp
next
  case (Cons x es)
  obtain st streams ids where sx: "s = (st, streams, ids)" by (cases s) auto
  let ?s' = "index_step now x s"
  have step: "getItem k (fst ?s') = None \<or> (getItem k (fst ?s') = Some v \<and> sid e \<notin> snd (snd ?s'))"
  proof (cases "sid x = sid e")
    case True
    from Cons.prems show ?thesis
    proof
      assume "getItem k (fst s) = None"
      then show ?thesis
        using sx True k
        by (auto simp: index_step_def Let_def getItem_removeItem_same split: option.splits)
    next
      assume "getItem k (fst s) = Some v \<and> sid e \<notin> snd (snd s)"
      then show ?thesis
        using sx True k v
        by (auto simp: index_step_def Let_def getItem_removeItem_same split: option.splits)
    qed
  next
    case False
    then have "stream_key (sid x) \<noteq> k"
      using k by simp
    then have "getItem k (fst ?s') = getItem k (fst s)"
      using sx
      by (auto simp: index_step_def Let_def getItem_removeItem_other split: option.splits)
    moreover have "sid e \<notin> snd (snd s) \<Longrightarrow> sid e \<notin> snd (snd ?s')"
      using sx False by (auto simp: index_step_def Let_def split: option.splits)
    ultimately show ?thesis
      using Cons.prems by auto
  qed
  have here: "x = e \<Longrightarrow> getItem k (fst ?s') = None"
  proof -
    assume xe: "x = e"
    from Cons.prems show ?thesis
    proof
      assume "getItem k (fst s) = None"
      then show ?thesis
        using sx xe k
        by (auto simp: index_step_def Let_def getItem_removeItem_same split: option.splits)
    next
      assume "getItem k (fst s) = Some v \<and> sid e \<notin> snd (snd s)"
      then show ?thesis
        using sx xe k v e
        by (auto simp: index_step_def Let_def getItem_removeItem_same split: option.splits)
    qed
  qed
  have ih: "(getItem k (fst (fold (index_step now) es ?s')) = None
          \<or> (getItem k (fst (fold (index_step now) es ?s')) = Some v
              \<and> sid e \<notin> snd (snd (fold (index_step now) es ?s'))))
     \<and> (e \<in> set es \<longrightarrow> getItem k (fst (fold (index_step now) es ?s')) = None)"
    using Cons.IH [OF step] .
  have stay: "getItem k (fst ?s') = None \<Longrightarrow> getItem k (fst (fold (index_step now) es ?s')) = None"
    using set_fold_index_step [of now es ?s'] by (rule getItem_None_subset)
  show ?case
    using ih here stay by auto
qed

lemma index_pass_deletes:
  assumes "e \<in> set (indexOf st)" and "isLive e" and "sid e \<noteq> []"
    and "now - startTime e < maxAge"
    and "getItem (stream_key (sid e)) st = Some v" and "v \<noteq> Empty" and "parseStream v = None"
  shows "getItem (stream_key (sid e)) (snd (getAllStreamsFromStorage now st)) = None"
proof -
  let ?k = "stream_key (sid e)"
  have "indexOf st \<noteq> []"
    using assms(1) by auto
  then obtain xs where g: "getItem global_key st = Some (VStreams xs)" and xs: "indexOf st = xs"
    by (auto simp: indexOf_def split: option.splits StoredValue.splits)
  have ip: "index_pass now (st, [], {}) = fold (index_step now) xs (st, [], {})"
    by (simp add: index_pass_def g)
  have "getItem ?k (fst (fold (index_step now) xs (st, [], {}))) = None"
    using index_steps_delete [OF assms(5,6,7) refl assms(2,3,4), of "(st, [], {})" xs]
      assms(1,5) xs by simp
  then have "getItem ?k (fst (scan now 0 (index_pass now (st, [], {})))) = None"
    using set_scan [of now 0 "index_pass now (st, [], {})"] ip
    by (auto intro: getItem_None_subset)
  then show ?thesis
    by (cases "scan now 0 (index_pass now (st, [], {}))")
       (simp add: getAllStreamsFromStorage_def Let_def getItem_setItem_other)
qed

text \<open>
  C3, as the code has it. A stored value that does not decode never fails the caller.
  \<^verbatim>\<open>updateStream\<close> returns \<^verbatim>\<open>false\<close> and \<^verbatim>\<open>getChatMessages\<close> returns the empty
  sequence, as for a missing key, and both leave the key in place. \<^verbatim>\<open>storeStream\<close> and
  \<^verbatim>\<open>getAllActiveStreams\<close> read a global list that does not decode as the empty list and
  overwrite it; \<^verbatim>\<open>endStream\<close> leaves it in place when the stream has no record.
  \<^verbatim>\<open>getAllActiveStreams\<close> deletes an individual record that does not decode when it
  reads it: through a live entry of the global list younger than 24 hours that names it,
  or, when the global list does not decode, in its scan, which always reaches the first key
  it has to delete.
\<close>

theorem corrupt_storage:
  "(getItem (stream_key i) st = Some v \<and> parseStream v = None \<longrightarrow>
      updateStream now i u st = (False, st))
   \<and> (getItem (chat_key i) st = Some v \<and> parseChat v = None \<longrightarrow> getChatMessages i st = [])
   \<and> (\<not> indexDecodes st \<longrightarrow>
        getItem global_key (storeStream s st) = Some (VStreams (if isLive s then [s] else []))
        \<and> getItem global_key (snd (getAllActiveStreams now st))
            = Some (VStreams (fst (getAllActiveStreams now st)))
        \<and> (\<forall>r \<in> set (fst (getAllActiveStreams now st)). scanned now st r))
   \<and> (\<not> indexDecodes st \<and> \<not> hasRecord i st \<longrightarrow>
        endStream now i st = removeItem (chat_key i) (removeItem (stream_key i) st))
   \<and> (\<not> indexDecodes st \<and> firstDoomed now st j \<longrightarrow>
        getItem (fst (st ! j)) (snd (getAllActiveStreams now st)) = None)
   \<and> (e \<in> set (indexOf st) \<and> isLive e \<and> sid e \<noteq> [] \<and> now - startTime e < maxAge
        \<and> getItem (stream_key (sid e)) st = Some v \<and> v \<noteq> Empty \<and> parseStream v = None \<longrightarrow>
        getItem (stream_key (sid e)) (snd (getAllActiveStreams now st)) = None)"
proof (intro conjI impI ballI)
  assume "getItem (stream_key i) st = Some v \<and> parseStream v = None"
  then show "updateStream now i u st = (False, st)"
    by (simp add: updateStream_undecodable)
next
  assume "getItem (chat_key i) st = Some v \<and> parseChat v = None"
  then show "getChatMessages i st = []"
    by (simp add: getChatMessages_undecodable)
next
  assume "\<not> indexDecodes st"
  then show "getItem global_key (storeStream s st) = Some (VStreams (if isLive s then [s] else []))"
    by (rule storeStream_undecodable)
next
  show "getItem global_key (snd (getAllActiveStreams now st))
      = Some (VStreams (fst (getAllActiveStreams now st)))"
    by (simp add: getAllActiveStreams_def getAllStreamsFromStorage_global)
next
  fix r
  assume "\<not> indexDecodes st" and "r \<in> set (fst (getAllActiveStreams now st))"
  then show "scanned now st r"
    by (simp add: getAllActiveStreams_def undecodable_scanned)
next
  assume a: "\<not> indexDecodes st \<and> \<not> hasRecord i st"
  then have "endStream now i st = removeStreamFromBroadcast i st"
    using endStream_no_record [of i st now] by simp
  with a show "endStream now i st = removeItem (chat_key i) (removeItem (stream_key i) st)"
    by (simp add: removeStreamFromBroadcast_undecodable)
next
  assume "\<not> indexDecodes st \<and> firstDoomed now st j"
  then show "getItem (fst (st ! j)) (snd (getAllActiveStreams now st)) = None"
    by (simp add: getAllActiveStreams_def first_doomed_deleted)
next
  assume "e \<in> set (indexOf st) \<and> isLive e \<and> sid e \<noteq> [] \<and> now - startTime e < maxAge
      \<and> getItem (stream_key (sid e)) st = Some v \<and> v \<noteq> Empty \<and> parseStream v = None"
  then show "getItem (stream_key (sid e)) (snd (getAllActiveStreams now st)) = None"
    by (simp add: getAllActiveStreams_def index_pass_deletes)
qed

text \<open>
  The claim as stated fails for \<^verbatim>\<open>updateStream\<close>: the record that does not decode is
  still stored afterwards.
\<close>

theorem corrupt_storage_counterexample:
  "updateStream 100 ''a'' noUpdates [(stream_key ''a'', Corrupt)]
     = (False, [(stream_key ''a'', Corrupt)])
   \<and> getItem (stream_key ''a'')
        (snd (updateStream 100 ''a'' noUpdates [(stream_key ''a'', Corrupt)])) = Some Corrupt"
  by (simp add: updateStream_def getItem_def)

text \<open>
  An instance: a storage whose global list, one record and one transcript do not decode; and
  a storage whose global list names a record that does not decode.
\<close>

theorem corrupt_storage_witness:
  "getItem (stream_key ''a'')
      [(global_key, Corrupt), (stream_key ''a'', Corrupt), (chat_key ''a'', Corrupt)] = Some Corrupt
   \<and> parseStream Corrupt = None
   \<and> updateStream 100 ''a'' noUpdates
        [(global_key, Corrupt), (stream_key ''a'', Corrupt), (chat_key ''a'', Corrupt)]
       = (False, [(global_key, Corrupt), (stream_key ''a'', Corrupt), (chat_key ''a'', Corrupt)])
   \<and> getItem (chat_key ''a'')
        [(global_key, Corrupt), (stream_key ''a'', Corrupt), (chat_key ''a'', Corrupt)] = Some Corrupt
   \<and> parseChat Corrupt = None
   \<and> getChatMessages ''a''
        [(global_key, Corrupt), (stream_key ''a'', Corrupt), (chat_key ''a'', Corrupt)] = []
   \<and> \<not> indexDecodes
        [(global_key, Corrupt), (stream_key ''a'', Corrupt), (chat_key ''a'', Corrupt)]
   \<and> getItem global_key (storeStream (demoStream ''b'' True 50)
        [(global_key, Corrupt), (stream_key ''a'', Corrupt), (chat_key ''a'', Corrupt)])
       = Some (VStreams [demoStream ''b'' True 50])
   \<and> \<not> hasRecord ''a''
        [(global_key, Corrupt), (stream_key ''a'', Corrupt), (chat_key ''a'', Corrupt)]
   \<and> endStream 100 ''a''
        [(global_key, Corrupt), (stream_key ''a'', Corrupt), (chat_key ''a'', Corrupt)]
       = [(global_key, Corrupt)]
   \<and> firstDoomed 100
        [(global_key, Corrupt), (stream_key ''a'', Corrupt), (chat_key ''a'', Corrupt)] 1
   \<and> getItem (stream_key ''a'') (snd (getAllActiveStreams 100
        [(global_key, Corrupt), (stream_key ''a'', Corrupt), (chat_key ''a'', Corrupt)])) = None
   \<and> demoStream ''a'' True 50 \<in> set (indexOf
        [(global_key, VStreams [demoStream ''a'' True 50]), (stream_key ''a'', Corrupt)])
   \<and> getItem (stream_key ''a'') (snd (getAllActiveStreams 100
        [(global_key, VStreams [demoStream ''a'' True 50]), (stream_key ''a'', Corrupt)])) = None"
proof -
  let ?st = "[(global_key, Corrupt), (stream_key ''a'', Corrupt), (chat_key ''a'', Corrupt)]"
  let ?a = "demoStream ''a'' True 50"
  let ?b = "demoStream ''b'' True 50"
  let ?st7 = "[(global_key, VStreams [?a]), (stream_key ''a'', Corrupt)]"
  have g1: "getItem (stream_key ''a'') ?st = Some Corrupt"
    and g2: "getItem (chat_key ''a'') ?st = Some Corrupt"
    by (simp_all add: getItem_def)
  have p1: "parseStream Corrupt = None" and p2: "parseChat Corrupt = None"
    by simp_all
  have nd: "\<not> indexDecodes ?st"
    by (simp add: indexDecodes_def getItem_def)
  have nr: "\<not> hasRecord ''a'' ?st"
    by (simp add: hasRecord_def g1)
  have fd: "firstDoomed 100 ?st 1"
    by (simp add: firstDoomed_def doomedAt_def doomed_def getItem_def)
  have k1: "fst (?st ! 1) = stream_key ''a''"
    by simp
  have lb: "isLive ?b" and a: "isLive ?a" "sid ?a = ''a''" "startTime ?a = 50"
    by (simp_all add: demoStream_def)
  have e1: "?a \<in> set (indexOf ?st7)"
    by (simp add: indexOf_def getItem_def)
  have e2: "getItem (stream_key (sid ?a)) ?st7 = Some Corrupt"
    by (simp add: a(2) getItem_def)
  have e3: "(100::int) - startTime ?a < maxAge"
    by (simp add: a(3) maxAge_def)
  note cs = corrupt_storage [of "''a''" ?st Corrupt 100 noUpdates ?b]
  from cs g1 p1 have r1: "updateStream 100 ''a'' noUpdates ?st = (False, ?st)"
    by blast
  from cs g2 p2 have r2: "getChatMessages ''a'' ?st = []"
    by blast
  from cs nd lb have r3: "getItem global_key (storeStream ?b ?st) = Some (VStreams [?b])"
    by simp
  from cs nd nr have "endStream 100 ''a'' ?st
      = removeItem (chat_key ''a'') (removeItem (stream_key ''a'') ?st)"
    by blast
  then have r4: "endStream 100 ''a'' ?st = [(global_key, Corrupt)]"
    by (simp add: removeItem_def)
  from corrupt_storage [of _ ?st _ 100 _ _ 1] nd fd k1
  have r5: "getItem (stream_key ''a'') (snd (getAllActiveStreams 100 ?st)) = None"
    by simp
  from corrupt_storage [of _ ?st7 Corrupt 100 _ _ _ ?a] e1 a(1) e2 e3
  have "getItem (stream_key (sid ?a)) (snd (getAllActiveStreams 100 ?st7)) = None"
    by (simp add: a(2))
  then have r6: "getItem (stream_key ''a'') (snd (getAllActiveStreams 100 ?st7)) = None"
    by (simp add: a(2))
  from g1 p1 r1 g2 p2 r2 nd r3 nr r4 fd r5 e1 r6 show ?thesis
    by (intro conjI)
qed

subsection \<open>A reconciliation with nothing to delete returns every record\<close>

lemma allActive_getItem:
  assumes "allActive now st" and "prefix stream_prefix k" and "getItem k st = Some v"
  shows "\<exists>s. v = VStream s \<and> isLive s \<and> now - startTime s < maxAge"
proof -
  from assms(3) have "(k, v) \<in> set st" by (rule getItem_in_set)
  with assms(1,2) have "case getItem k st of
      Some (VStream s) \<Rightarrow> isLive s \<and> now - startTime s < maxAge | _ \<Rightarrow> False"
    by (auto simp: allActive_def list_all_iff)
  with assms(3) show ?thesis
    by (cases v) simp_all
qed

lemma removeItem_absent: "getItem k st = None \<Longrightarrow> removeItem k st = st"
proof -
  assume "getItem k st = None"
  then have "k \<notin> fst ` set st"
    by (simp add: getItem_def map_of_eq_None_iff)
  then have "\<forall>x \<in> set st. (case x of (k', v') \<Rightarrow> k' \<noteq> k)"
    by force
  then show ?thesis
    by (simp add: removeItem_def)
qed

lemma index_step_clean:
  assumes ia: "indexAgrees st" and aa: "allActive now st" and e: "e \<in> set (indexOf st)"
    and c: "cleanState st s"
  shows "cleanState st (index_step now e s)
     \<and> set (fst (snd s)) \<subseteq> set (fst (snd (index_step now e s)))"
proof -
  obtain streams ids where s: "s = (st, streams, ids)"
    using c by (cases s) (auto simp: cleanState_def)
  let ?k = "stream_key (sid e)"
  show ?thesis
  proof (cases "getItem ?k st")
    case None
    then have "removeItem ?k st = st" by (rule removeItem_absent)
    with None c s show ?thesis
      by (auto simp: index_step_def Let_def)
  next
    case (Some v)
    then obtain r where r: "v = VStream r" "isLive r" "now - startTime r < maxAge"
      using allActive_getItem [OF aa, of ?k v] by auto
    from ia e Some r(1) have "startTime e = startTime r"
      by (auto simp: indexAgrees_def list_all_iff)
    with r(3) have young: "now - startTime e < maxAge" by simp
    have pushed: "cleanState st (st, streams @ [r], insert (sid e) ids)"
      using c s Some r(1) by (auto simp: cleanState_def)
    show ?thesis
      using c s Some r young pushed
      by (auto simp: index_step_def Let_def)
  qed
qed

lemma index_steps_clean:
  assumes "indexAgrees st" and "allActive now st"
  shows "set es \<subseteq> set (indexOf st) \<Longrightarrow> cleanState st s
     \<Longrightarrow> cleanState st (fold (index_step now) es s)"
proof (induction es arbitrary: s)
  case Nil
  then show ?case by simp
next
  case (Cons e es)
  then have "cleanState st (index_step now e s)"
    using index_step_clean [OF assms, of e s] by simp
  with Cons show ?case by simp
qed

lemma index_pass_clean:
  assumes "indexAgrees st" and "allActive now st"
  shows "cleanState st (index_pass now (st, [], {}))"
proof -
  have c0: "cleanState st (st, [], {})"
    by (simp add: cleanState_def)
  have "cleanState st (fold (index_step now) (indexOf st) (st, [], {}))"
    using index_steps_clean [OF assms _ c0] by simp
  with c0 show ?thesis
    by (auto simp: index_pass_def indexOf_def split: option.splits StoredValue.splits)
qed

lemma scan_step_clean:
  assumes wk: "wellKeyed st" and aa: "allActive now st" and c: "cleanState st s"
    and i: "i < length st" and p: "prefix stream_prefix (fst (st ! i))"
  shows "cleanState st (scan_step now (fst (st ! i)) s)
     \<and> set (fst (snd s)) \<subseteq> set (fst (snd (scan_step now (fst (st ! i)) s)))
     \<and> (\<forall>r. getItem (fst (st ! i)) st = Some (VStream r) \<and> sid r \<noteq> []
            \<longrightarrow> r \<in> set (fst (snd (scan_step now (fst (st ! i)) s))))"
proof -
  obtain streams ids where s: "s = (st, streams, ids)"
    using c by (cases s) (auto simp: cleanState_def)
  let ?k = "fst (st ! i)"
  obtain v where v: "getItem ?k st = Some v"
    using getItem_nth [OF i] by blast
  then obtain r where r: "v = VStream r" "isLive r" "now - startTime r < maxAge"
    using allActive_getItem [OF aa p] by blast
  have k: "?k = stream_key (sid r)"
    using wk v r(1) wellKeyed_getItem by blast
  show ?thesis
  proof (cases "sid r \<noteq> [] \<and> sid r \<notin> ids")
    case True
    then have step: "scan_step now ?k s = (st, streams @ [r], insert (sid r) ids)"
      using s v r by (simp add: scan_step_def Let_def)
    have "cleanState st (st, streams @ [r], insert (sid r) ids)"
      using c s v r(1) k by (auto simp: cleanState_def)
    with step s v r(1) show ?thesis by auto
  next
    case False
    then have step: "scan_step now ?k s = s"
      using s v r by (auto simp: scan_step_def Let_def)
    have "sid r \<noteq> [] \<Longrightarrow> r \<in> set streams"
    proof -
      assume "sid r \<noteq> []"
      with False have "sid r \<in> ids" by simp
      with c s obtain r' where "r' \<in> set streams"
          "getItem (stream_key (sid r)) st = Some (VStream r')"
        by (auto simp: cleanState_def)
      with v r(1) k show ?thesis by simp
    qed
    with step c s v r(1) show ?thesis by auto
  qed
qed

lemma scan_clean:
  assumes wk: "wellKeyed st"
  shows "allActive now st \<Longrightarrow> cleanState st s \<Longrightarrow>
     cleanState st (scan now i s)
     \<and> set (fst (snd s)) \<subseteq> set (fst (snd (scan now i s)))
     \<and> (\<forall>m r. i \<le> m \<and> m < length st \<and> prefix stream_prefix (fst (st ! m))
            \<and> getItem (fst (st ! m)) st = Some (VStream r) \<and> sid r \<noteq> []
            \<longrightarrow> r \<in> set (fst (snd (scan now i s))))"
proof (induction now i s rule: scan.induct)
  case (1 now' i st' streams ids)
  note aa = "1.prems"(1) and c = "1.prems"(2)
  from c have st': "st' = st" by (simp add: cleanState_def)
  show ?case
  proof (cases "i < length st")
    case False
    with c st' show ?thesis
      by (auto simp: scan.simps [of now' i])
  next
    case i: True
    show ?thesis
    proof (cases "prefix stream_prefix (fst (st ! i))")
      case False
      have eq: "scan now' i (st', streams, ids) = scan now' (Suc i) (st', streams, ids)"
        using i False st' by (simp add: scan.simps [of now' i])
      have ih: "cleanState st (scan now' (Suc i) (st', streams, ids))
          \<and> set streams \<subseteq> set (fst (snd (scan now' (Suc i) (st', streams, ids))))
          \<and> (\<forall>m r. Suc i \<le> m \<and> m < length st \<and> prefix stream_prefix (fst (st ! m))
                \<and> getItem (fst (st ! m)) st = Some (VStream r) \<and> sid r \<noteq> []
                \<longrightarrow> r \<in> set (fst (snd (scan now' (Suc i) (st', streams, ids)))))"
        using "1.IH"(2) [OF _ _ aa c] i False unfolding st' by auto
      have "\<And>m. i \<le> m \<Longrightarrow> prefix stream_prefix (fst (st ! m)) \<Longrightarrow> Suc i \<le> m"
        using False by (metis le_antisym not_less_eq_eq)
      with ih show ?thesis
        unfolding eq by auto
    next
      case p: True
      let ?s1 = "scan_step now' (fst (st ! i)) (st', streams, ids)"
      have eq: "scan now' i (st', streams, ids) = scan now' (Suc i) ?s1"
        using i p st' by (simp add: scan.simps [of now' i])
      have s1: "cleanState st ?s1" "set streams \<subseteq> set (fst (snd ?s1))"
        "\<forall>r. getItem (fst (st ! i)) st = Some (VStream r) \<and> sid r \<noteq> []
            \<longrightarrow> r \<in> set (fst (snd ?s1))"
        using scan_step_clean [OF wk aa _ i p, of "(st', streams, ids)"] c st' by simp_all
      have ih: "cleanState st (scan now' (Suc i) ?s1)
          \<and> set (fst (snd ?s1)) \<subseteq> set (fst (snd (scan now' (Suc i) ?s1)))
          \<and> (\<forall>m r. Suc i \<le> m \<and> m < length st \<and> prefix stream_prefix (fst (st ! m))
                \<and> getItem (fst (st ! m)) st = Some (VStream r) \<and> sid r \<noteq> []
                \<longrightarrow> r \<in> set (fst (snd (scan now' (Suc i) ?s1))))"
        using "1.IH"(1) [OF _ _ aa] i p s1(1) unfolding st' by auto
      have "\<And>m r. i \<le> m \<Longrightarrow> m < length st \<Longrightarrow> prefix stream_prefix (fst (st ! m))
          \<Longrightarrow> getItem (fst (st ! m)) st = Some (VStream r) \<Longrightarrow> sid r \<noteq> []
          \<Longrightarrow> r \<in> set (fst (snd (scan now' (Suc i) ?s1)))"
      proof -
        fix m r
        assume m: "i \<le> m" "m < length st" "prefix stream_prefix (fst (st ! m))"
          "getItem (fst (st ! m)) st = Some (VStream r)" "sid r \<noteq> []"
        show "r \<in> set (fst (snd (scan now' (Suc i) ?s1)))"
        proof (cases "m = i")
          case True
          with m s1(3) have "r \<in> set (fst (snd ?s1))" by simp
          with ih show ?thesis by auto
        next
          case False
          with m(1) have "Suc i \<le> m" by simp
          with m ih show ?thesis by blast
        qed
      qed
      with ih s1(2) show ?thesis
        unfolding eq by auto
    qed
  qed
qed

lemma all_returned:
  assumes wk: "wellKeyed st" and ia: "indexAgrees st" and aa: "allActive now st"
    and g: "getItem k st = Some (VStream r)" and n: "sid r \<noteq> []"
  shows "r \<in> set (fst (getAllStreamsFromStorage now st))"
proof -
  have k: "k = stream_key (sid r)"
    using wk g by (rule wellKeyed_getItem)
  then have p: "prefix stream_prefix k" by simp
  from g have "(k, VStream r) \<in> set st" by (rule getItem_in_set)
  then obtain m where m: "m < length st" "st ! m = (k, VStream r)"
    by (auto simp: in_set_conv_nth)
  then have km: "fst (st ! m) = k" by simp
  have live: "isLive r"
    using allActive_getItem [OF aa p g] by simp
  let ?s0 = "index_pass now (st, [], {})"
  have "cleanState st ?s0"
    using ia aa by (rule index_pass_clean)
  then have "r \<in> set (fst (snd (scan now 0 ?s0)))"
    using scan_clean [OF wk aa, of ?s0 0] m(1) km p g n by auto
  with live show ?thesis
    by (cases "scan now 0 ?s0") (simp add: getAllStreamsFromStorage_def Let_def)
qed

lemma found_has_id:
  assumes "wellKeyed st" and "r \<in> set (fst (getAllStreamsFromStorage now st))"
  shows "sid r \<noteq> []"
proof -
  from assms(2) have "vouched now st r \<or> scanned now st r"
    using getAllStreamsFromStorage_sound by blast
  then show ?thesis
  proof
    assume "vouched now st r"
    then obtain e :: StreamData
      where e: "sid e \<noteq> []" "getItem (stream_key (sid e)) st = Some (VStream r)"
      unfolding vouched_def by blast
    from assms(1) e(2) have "stream_key (sid e) = stream_key (sid r)"
      by (rule wellKeyed_getItem)
    with e(1) show ?thesis by simp
  next
    assume "scanned now st r"
    then show ?thesis by (simp add: scanned_def)
  qed
qed

subsection \<open>The registry keeps its storage consistent\<close>

lemma storageKey_nth: "i < length st \<Longrightarrow> storageKey i st = Some (fst (st ! i))"
  by (simp add: storageKey_def)

lemma indexOf_setItem_global [simp]: "indexOf (setItem global_key (VStreams xs) st) = xs"
  by (simp add: indexOf_def getItem_setItem_same)

lemma indexOf_other:
  "getItem global_key st' = getItem global_key st \<Longrightarrow> indexOf st' = indexOf st"
  by (simp add: indexOf_def)

lemma indexAgrees_sub:
  assumes "indexAgrees st" and "set (indexOf st') \<subseteq> set (indexOf st)"
    and "\<And>x. getItem (stream_key x) st' = getItem (stream_key x) st
            \<or> getItem (stream_key x) st' = None"
  shows "indexAgrees st'"
  unfolding indexAgrees_def list_all_iff
proof
  fix e
  assume "e \<in> set (indexOf st')"
  with assms(1,2) have a: "case getItem (stream_key (sid e)) st of
      Some (VStream s) \<Rightarrow> startTime e = startTime s | _ \<Rightarrow> True"
    by (auto simp: indexAgrees_def list_all_iff)
  from assms(3) [of "sid e"] a
  show "case getItem (stream_key (sid e)) st' of
      Some (VStream s) \<Rightarrow> startTime e = startTime s | _ \<Rightarrow> True"
    by auto
qed

lemma getItem_storeStream:
  "getItem k (storeStream s st) =
     (if k = global_key
      then Some (VStreams (filter (\<lambda>x. sid x \<noteq> sid s) (indexOf st) @ (if isLive s then [s] else [])))
      else if k = stream_key (sid s) then Some (VStream s) else getItem k st)"
proof -
  have g: "getItem global_key (setItem (stream_key (sid s)) (VStream s) st) = getItem global_key st"
    by (simp add: getItem_setItem_other)
  have ix: "(case getItem global_key st of None \<Rightarrow> []
       | Some e \<Rightarrow> if e = Empty then [] else (case parseStreams e of None \<Rightarrow> [] | Some xs \<Rightarrow> xs))
      = indexOf st"
    by (auto simp: indexOf_def split: option.splits StoredValue.splits)
  show ?thesis
    by (simp add: storeStream_def Let_def g ix getItem_setItem_same getItem_setItem_other)
qed

lemma indexAgrees_storeStream:
  assumes "indexAgrees st"
  shows "indexAgrees (storeStream s st)"
  unfolding indexAgrees_def list_all_iff
proof
  fix e
  assume "e \<in> set (indexOf (storeStream s st))"
  then have e: "e \<in> set (filter (\<lambda>x. sid x \<noteq> sid s) (indexOf st) @ (if isLive s then [s] else []))"
    by (simp add: indexOf_def getItem_storeStream)
  show "case getItem (stream_key (sid e)) (storeStream s st) of
      Some (VStream r) \<Rightarrow> startTime e = startTime r | _ \<Rightarrow> True"
  proof (cases "sid e = sid s")
    case True
    with e have "e = s" by (auto split: if_splits)
    then show ?thesis by (simp add: getItem_storeStream)
  next
    case False
    with e have "e \<in> set (indexOf st)" by (auto split: if_splits)
    with assms have "case getItem (stream_key (sid e)) st of
        Some (VStream r) \<Rightarrow> startTime e = startTime r | _ \<Rightarrow> True"
      by (auto simp: indexAgrees_def list_all_iff)
    with False show ?thesis by (simp add: getItem_storeStream)
  qed
qed

lemma consistent_storeStream: "consistent st \<Longrightarrow> consistent (storeStream s st)"
  by (simp add: consistent_def wellKeyed_storeStream indexAgrees_storeStream)

lemma consistent_updateStream: "consistent st \<Longrightarrow> consistent (snd (updateStream now i u st))"
  by (auto simp: updateStream_def consistent_storeStream split: option.splits)

lemma consistent_getAllStreamsFromStorage:
  assumes "consistent st"
  shows "consistent (snd (getAllStreamsFromStorage now st))"
proof -
  let ?st' = "snd (getAllStreamsFromStorage now st)"
  from assms have wk: "wellKeyed st" by (simp add: consistent_def)
  have "indexOf ?st' = fst (getAllStreamsFromStorage now st)"
    by (simp add: indexOf_def getAllStreamsFromStorage_global)
  moreover have "\<And>r. r \<in> set (fst (getAllStreamsFromStorage now st)) \<Longrightarrow>
      (case getItem (stream_key (sid r)) ?st' of
         Some (VStream s) \<Rightarrow> startTime r = startTime s | _ \<Rightarrow> True)"
  proof -
    fix r
    assume "r \<in> set (fst (getAllStreamsFromStorage now st))"
    then have "getItem (stream_key (sid r)) st = Some (VStream r)"
      using found_stored [OF wk] by blast
    then show "case getItem (stream_key (sid r)) ?st' of
         Some (VStream s) \<Rightarrow> startTime r = startTime s | _ \<Rightarrow> True"
      using getAllStreamsFromStorage_other [of "stream_key (sid r)" now st] by auto
  qed
  ultimately have "indexAgrees ?st'"
    by (simp add: indexAgrees_def list_all_iff)
  with wk show ?thesis
    by (simp add: consistent_def wellKeyed_getAllStreamsFromStorage)
qed

lemma consistent_removeItem:
  assumes "consistent st" and "k \<noteq> global_key"
  shows "consistent (removeItem k st)"
proof -
  from assms(1) have ia: "indexAgrees st" and wk: "wellKeyed st"
    by (simp_all add: consistent_def)
  have "indexAgrees (removeItem k st)"
  proof (rule indexAgrees_sub [OF ia])
    have "indexOf (removeItem k st) = indexOf st"
      using assms(2) by (intro indexOf_other) (simp add: getItem_removeItem_other)
    then show "set (indexOf (removeItem k st)) \<subseteq> set (indexOf st)"
      by simp
  next
    fix x
    show "getItem (stream_key x) (removeItem k st) = getItem (stream_key x) st
        \<or> getItem (stream_key x) (removeItem k st) = None"
      by (cases "stream_key x = k")
         (simp_all add: getItem_removeItem_other getItem_removeItem_same)
  qed
  moreover have "wellKeyed (removeItem k st)"
    using wk unfolding wellKeyed_def by (rule list_all_removeItem)
  ultimately show ?thesis
    by (simp add: consistent_def)
qed

lemma consistent_setItem_chat:
  assumes "consistent st"
  shows "consistent (setItem (chat_key i) (VChat ms) st)"
proof -
  from assms have ia: "indexAgrees st" and wk: "wellKeyed st"
    by (simp_all add: consistent_def)
  have "indexAgrees (setItem (chat_key i) (VChat ms) st)"
  proof (rule indexAgrees_sub [OF ia])
    have "indexOf (setItem (chat_key i) (VChat ms) st) = indexOf st"
      by (intro indexOf_other) (simp add: getItem_setItem_other)
    then show "set (indexOf (setItem (chat_key i) (VChat ms) st)) \<subseteq> set (indexOf st)"
      by simp
  next
    fix x
    show "getItem (stream_key x) (setItem (chat_key i) (VChat ms) st) = getItem (stream_key x) st
        \<or> getItem (stream_key x) (setItem (chat_key i) (VChat ms) st) = None"
      by (simp add: getItem_setItem_other)
  qed
  moreover have "wellKeyed (setItem (chat_key i) (VChat ms) st)"
    using wk unfolding wellKeyed_def by (rule list_all_setItem) simp
  ultimately show ?thesis
    by (simp add: consistent_def)
qed

lemma consistent_filter_index:
  assumes "consistent st"
  shows "consistent (setItem global_key (VStreams (filter P (indexOf st))) st)"
proof -
  let ?st' = "setItem global_key (VStreams (filter P (indexOf st))) st"
  from assms have ia: "indexAgrees st" and wk: "wellKeyed st"
    by (simp_all add: consistent_def)
  have "indexAgrees ?st'"
  proof (rule indexAgrees_sub [OF ia])
    show "set (indexOf ?st') \<subseteq> set (indexOf st)"
      by simp
  next
    fix x
    show "getItem (stream_key x) ?st' = getItem (stream_key x) st
        \<or> getItem (stream_key x) ?st' = None"
      by (simp add: getItem_setItem_other)
  qed
  moreover have "wellKeyed ?st'"
    using wk unfolding wellKeyed_def by (rule list_all_setItem) simp
  ultimately show ?thesis
    by (simp add: consistent_def)
qed

lemma filter_index_cases:
  "(case getItem global_key st of None \<Rightarrow> st
    | Some d \<Rightarrow> if d = Empty then st
        else (case parseStreams d of None \<Rightarrow> st
              | Some gs \<Rightarrow> setItem global_key (VStreams (filter P gs)) st))
   = (if indexDecodes st then setItem global_key (VStreams (filter P (indexOf st))) st else st)"
  by (auto simp: indexDecodes_def indexOf_def split: option.splits StoredValue.splits)

lemma consistent_endStream: "consistent st \<Longrightarrow> consistent (endStream now i st)"
  unfolding endStream_def Let_def filter_index_cases
  by (simp add: consistent_removeItem consistent_filter_index consistent_updateStream)

lemma consistent_removeStreamFromBroadcast:
  "consistent st \<Longrightarrow> consistent (removeStreamFromBroadcast i st)"
  unfolding removeStreamFromBroadcast_def Let_def filter_index_cases
  by (simp add: consistent_removeItem consistent_filter_index)

lemma consistent_storeStreamFromBroadcast:
  "consistent st \<Longrightarrow> consistent (storeStreamFromBroadcast s st)"
  by (auto simp: storeStreamFromBroadcast_def consistent_storeStream split: option.splits)

lemma consistent_sendMessage:
  assumes "consistent st"
  shows "consistent (snd (sendMessage i sender' msg addr now newId st))"
proof (cases rule: sendMessage_shape [of i st sender' msg addr now newId])
  case failed
  with assms show ?thesis by simp
next
  case sent
  with assms show ?thesis by (simp add: consistent_setItem_chat)
qed

lemma consistent_getAllActiveStreams:
  "consistent st \<Longrightarrow> consistent (snd (getAllActiveStreams now st))"
  by (simp add: getAllActiveStreams_def consistent_getAllStreamsFromStorage)

lemma consistent_joinStream:
  assumes "consistent st"
  shows "consistent (snd (joinStream i v now newId st))"
proof (cases rule: joinStream_shape [of i now st v newId])
  case missing
  with assms show ?thesis by (simp add: consistent_getAllActiveStreams)
next
  case (threw r st2)
  with assms show ?thesis
    by (simp add: consistent_getAllActiveStreams consistent_updateStream)
next
  case (joined r st2)
  with assms show ?thesis
    by (simp add: consistent_getAllActiveStreams consistent_updateStream
        consistent_setItem_chat)
qed

lemma consistent_leaveStream:
  assumes "consistent st"
  shows "consistent (snd (leaveStream i v now newId st))"
proof (cases rule: leaveStream_shape [of i now st v newId])
  case missing
  with assms show ?thesis by (simp add: consistent_getAllActiveStreams)
next
  case (threw r st2)
  with assms show ?thesis
    by (simp add: consistent_getAllActiveStreams consistent_updateStream)
next
  case (left r st2)
  with assms show ?thesis
    by (simp add: consistent_getAllActiveStreams consistent_updateStream
        consistent_setItem_chat)
qed

lemma consistent_empty: "consistent []"
  by (simp add: consistent_def wellKeyed_def indexAgrees_def indexOf_def getItem_def)

lemma consistent_onMessage:
  assumes "consistent st"
  shows "consistent (onMessage w now msg st)"
proof (cases msg)
  case (SyncResponseMessage sender' streams)
  have "consistent (fold storeStreamFromBroadcast streams st')" if "consistent st'" for st'
    using that
    by (induction streams arbitrary: st') (simp_all add: consistent_storeStreamFromBroadcast)
  with assms SyncResponseMessage show ?thesis
    by (simp add: syncStreams_def consistent_getAllStreamsFromStorage)
qed (simp_all add: assms syncStreams_def consistent_getAllStreamsFromStorage
      consistent_storeStreamFromBroadcast consistent_removeStreamFromBroadcast)

lemma consistent_perform: "consistent st \<Longrightarrow> consistent (perform c st)"
proof (cases c)
  case (Chat op)
  assume "consistent st"
  then show ?thesis
    using Chat
    by (cases op) (simp_all add: consistent_sendMessage consistent_joinStream consistent_leaveStream)
qed (simp_all add: createStream_def Let_def consistent_storeStream consistent_updateStream
      consistent_endStream getAllActiveStreams_def consistent_getAllStreamsFromStorage
      consistent_onMessage)

text \<open>
  Every storage that the calls of the registry build from the empty storage is consistent:
  well keyed, with a global list that agrees with the records.
\<close>

lemma consistent_reachable: "consistent (fold perform cs [])"
proof -
  have "consistent st \<Longrightarrow> consistent (fold perform cs st)" for st
    by (induction cs arbitrary: st) (simp_all add: consistent_perform)
  then show ?thesis
    using consistent_empty by blast
qed

subsection \<open>The viewer count of one record\<close>

lemma storedNonneg_getAllStreamsFromStorage:
  "storedNonneg k st \<Longrightarrow> storedNonneg k (snd (getAllStreamsFromStorage now st))"
proof (cases "k = global_key")
  case True
  then show ?thesis
    by (simp add: storedNonneg_def getAllStreamsFromStorage_global)
next
  case False
  assume "storedNonneg k st"
  then show ?thesis
    using getAllStreamsFromStorage_other [OF False, of now st]
    by (auto simp: storedNonneg_def)
qed

lemma storedNonneg_updateStream:
  assumes "storedNonneg k st" and "0 \<le> c"
  shows "storedNonneg k (snd (updateStream now i (noUpdates\<lparr>p_viewerCount := Some c\<rparr>) st))"
  using assms
  by (auto simp: updateStream_def storedNonneg_def getItem_storeStream mergeUpdates_viewerCount
      split: option.splits)

lemma storedNonneg_setItem_chat:
  "storedNonneg k st \<Longrightarrow> storedNonneg k (setItem (chat_key i) (VChat ms) st)"
  by (cases "k = chat_key i")
     (simp_all add: storedNonneg_def getItem_setItem_same getItem_setItem_other)

lemma storedNonneg_getAllActiveStreams:
  "storedNonneg k st \<Longrightarrow> storedNonneg k (snd (getAllActiveStreams now st))"
  by (simp add: getAllActiveStreams_def storedNonneg_getAllStreamsFromStorage)

lemma storedNonneg_leaveStream:
  assumes "storedNonneg k st"
  shows "storedNonneg k (snd (leaveStream i v now newId st))"
proof (cases rule: leaveStream_shape [of i now st v newId])
  case missing
  with assms show ?thesis by (simp add: storedNonneg_getAllActiveStreams)
next
  case (threw r st2)
  with assms show ?thesis
    by (simp add: storedNonneg_getAllActiveStreams storedNonneg_updateStream)
next
  case (left r st2)
  with assms show ?thesis
    by (simp add: storedNonneg_getAllActiveStreams storedNonneg_updateStream
        storedNonneg_setItem_chat)
qed

lemma storedNonneg_leaveStreams:
  "storedNonneg k st \<Longrightarrow> storedNonneg k (leaveStreams calls st)"
  unfolding leaveStreams_def
  by (induction calls arbitrary: st) (auto simp: storedNonneg_leaveStream)

subsection \<open>A listed record is returned\<close>

lemma scan_step_mono: "set (fst (snd s)) \<subseteq> set (fst (snd (scan_step now k s)))"
  by (cases s) (auto simp: scan_step_def Let_def split: option.splits)

lemma scan_mono: "set (fst (snd s)) \<subseteq> set (fst (snd (scan now i s)))"
proof (induction now i s rule: scan.induct)
  case (1 now i st streams ids)
  show ?case
  proof (cases "i < length st")
    case False
    then show ?thesis by (simp add: scan.simps [of now i])
  next
    case i: True
    show ?thesis
    proof (cases "prefix stream_prefix (fst (st ! i))")
      case False
      with i "1.IH"(2) show ?thesis
        by (simp add: scan.simps [of now i])
    next
      case True
      let ?s1 = "scan_step now (fst (st ! i)) (st, streams, ids)"
      have "set streams \<subseteq> set (fst (snd ?s1))"
        using scan_step_mono [of "(st, streams, ids)" now "fst (st ! i)"] by simp
      also have "\<dots> \<subseteq> set (fst (snd (scan now (Suc i) ?s1)))"
        using "1.IH"(1) [OF i True] .
      finally show ?thesis
        using i True by (simp add: scan.simps [of now i])
    qed
  qed
qed

lemma index_step_mono: "set (fst (snd t)) \<subseteq> set (fst (snd (index_step now y t)))"
  by (cases t) (auto simp: index_step_def Let_def split: option.splits)

lemma index_steps_mono:
  "set (fst (snd s)) \<subseteq> set (fst (snd (fold (index_step now) es s)))"
proof (induction es arbitrary: s)
  case Nil
  show ?case by simp
next
  case (Cons y ys)
  have "set (fst (snd s)) \<subseteq> set (fst (snd (index_step now y s)))"
    by (rule index_step_mono)
  also have "\<dots> \<subseteq> set (fst (snd (fold (index_step now) ys (index_step now y s))))"
    by (rule Cons.IH)
  finally show ?case by simp
qed

lemma index_step_listed:
  assumes g: "getItem (stream_key i) st = Some (VStream r)" and l: "isLive r" and i: "i \<noteq> []"
    and y: "sid x = i \<longrightarrow> now - startTime x < maxAge"
    and b: "i \<in> ids \<longrightarrow> r \<in> set streams"
  shows "getItem (stream_key i) (fst (index_step now x (st, streams, ids))) = Some (VStream r)
     \<and> (i \<in> snd (snd (index_step now x (st, streams, ids)))
          \<longrightarrow> r \<in> set (fst (snd (index_step now x (st, streams, ids)))))
     \<and> (sid x = i \<and> isLive x
          \<longrightarrow> r \<in> set (fst (snd (index_step now x (st, streams, ids)))))"
proof (cases "sid x = i")
  case same: True
  with y have young: "now - startTime x < maxAge" by simp
  show ?thesis
  proof (cases "isLive x \<and> i \<notin> ids")
    case True
    then have "index_step now x (st, streams, ids) = (st, streams @ [r], insert i ids)"
      using same young i g l by (simp add: index_step_def)
    with g show ?thesis by simp
  next
    case False
    then have "index_step now x (st, streams, ids) = (st, streams, ids)"
      using same young by (auto simp: index_step_def)
    with g b False show ?thesis by auto
  qed
next
  case other: False
  then have ne: "stream_key (sid x) \<noteq> stream_key i" by simp
  obtain st' streams' ids' where e: "index_step now x (st, streams, ids) = (st', streams', ids')"
    by (cases "index_step now x (st, streams, ids)") auto
  have st': "st' = st \<or> st' = removeItem (stream_key (sid x)) st"
    using e by (auto simp: index_step_def Let_def split: option.splits if_splits)
  have ids': "ids' = ids \<or> ids' = insert (sid x) ids"
    using e by (auto simp: index_step_def Let_def split: option.splits if_splits)
  have "set streams \<subseteq> set streams'"
    using index_step_mono [of "(st, streams, ids)" now x] e by simp
  moreover have "getItem (stream_key i) st' = Some (VStream r)"
    using st' g ne by (auto simp: getItem_removeItem_other)
  moreover have "i \<in> ids' \<longrightarrow> i \<in> ids"
    using ids' other by auto
  ultimately show ?thesis
    using e b other by auto
qed

lemma index_steps_listed:
  assumes ia: "indexAgrees st0"
    and r: "getItem (stream_key i) st0 = Some (VStream r)" "isLive r"
      "now - startTime r < maxAge"
    and i: "i \<noteq> []"
  shows "set es \<subseteq> set (indexOf st0)
     \<Longrightarrow> getItem (stream_key i) (fst s) = Some (VStream r)
     \<Longrightarrow> i \<in> snd (snd s) \<longrightarrow> r \<in> set (fst (snd s))
     \<Longrightarrow> getItem (stream_key i) (fst (fold (index_step now) es s)) = Some (VStream r)
        \<and> (i \<in> snd (snd (fold (index_step now) es s))
             \<longrightarrow> r \<in> set (fst (snd (fold (index_step now) es s))))
        \<and> ((\<exists>e \<in> set es. sid e = i \<and> isLive e)
             \<longrightarrow> r \<in> set (fst (snd (fold (index_step now) es s))))"
proof (induction es arbitrary: s)
  case Nil
  then show ?case by simp
next
  case (Cons x es)
  obtain st streams ids where sx: "s = (st, streams, ids)" by (cases s) auto
  let ?s' = "index_step now x s"
  from Cons.prems(1) have x: "x \<in> set (indexOf st0)" and es: "set es \<subseteq> set (indexOf st0)"
    by simp_all
  have young: "sid x = i \<longrightarrow> now - startTime x < maxAge"
  proof
    assume "sid x = i"
    with ia x r(1) have "startTime x = startTime r"
      by (auto simp: indexAgrees_def list_all_iff)
    with r(3) show "now - startTime x < maxAge" by simp
  qed
  have step: "getItem (stream_key i) (fst ?s') = Some (VStream r)
      \<and> (i \<in> snd (snd ?s') \<longrightarrow> r \<in> set (fst (snd ?s')))
      \<and> (sid x = i \<and> isLive x \<longrightarrow> r \<in> set (fst (snd ?s')))"
    unfolding sx
    using Cons.prems(2,3) sx by (intro index_step_listed [OF _ r(2) i young]) simp_all
  then have ih: "getItem (stream_key i) (fst (fold (index_step now) es ?s')) = Some (VStream r)
     \<and> (i \<in> snd (snd (fold (index_step now) es ?s'))
          \<longrightarrow> r \<in> set (fst (snd (fold (index_step now) es ?s'))))
     \<and> ((\<exists>e \<in> set es. sid e = i \<and> isLive e)
          \<longrightarrow> r \<in> set (fst (snd (fold (index_step now) es ?s'))))"
    using Cons.IH [OF es, of ?s'] by blast
  have mono: "set (fst (snd ?s')) \<subseteq> set (fst (snd (fold (index_step now) es ?s')))"
    by (rule index_steps_mono)
  have "(\<exists>e \<in> set (x # es). sid e = i \<and> isLive e)
      \<longrightarrow> r \<in> set (fst (snd (fold (index_step now) es ?s')))"
    using step ih mono by auto
  with ih show ?case
    by simp
qed

lemma listed_returned:
  assumes ia: "indexAgrees st" and l: "listedLive i st" and i: "i \<noteq> []"
    and r: "getItem (stream_key i) st = Some (VStream r)" "isLive r" "now - startTime r < maxAge"
  shows "r \<in> set (fst (getAllStreamsFromStorage now st))"
proof -
  from l have ne: "indexOf st \<noteq> []"
    by (auto simp: listedLive_def)
  then obtain xs where g: "getItem global_key st = Some (VStreams xs)" and xs: "indexOf st = xs"
    by (auto simp: indexOf_def split: option.splits StoredValue.splits)
  have ip: "index_pass now (st, [], {}) = fold (index_step now) xs (st, [], {})"
    by (simp add: index_pass_def g)
  have "r \<in> set (fst (snd (fold (index_step now) xs (st, [], {}))))"
    using index_steps_listed [OF ia r i, of xs "(st, [], {})"] l xs r(1)
    by (auto simp: listedLive_def)
  then have "r \<in> set (fst (snd (scan now 0 (index_pass now (st, [], {})))))"
    using scan_mono [of "index_pass now (st, [], {})" now 0] ip by auto
  with r(2) show ?thesis
    by (cases "scan now 0 (index_pass now (st, [], {}))")
       (simp add: getAllStreamsFromStorage_def Let_def)
qed

subsection \<open>Visibility\<close>

text \<open>
  C1, as the code has it. Every record \<^verbatim>\<open>getAllActiveStreams\<close> returns is live and was
  stored: it was either found by the scan, which tests the record's own age and id, or
  through an entry of the global list, which tests the age and the id of the entry. In a
  well-keyed storage whose global list agrees with the records, every record returned is
  therefore the stored record of its id, is live, is younger than 24 hours and has an id, so
  that a record failing either condition is not returned. Conversely, when in such a
  storage every individual key holds a live record younger than 24 hours (the pass has
  nothing to delete), every stored record with an id is returned; and in any storage whose
  global list agrees with the records, a live record younger than 24 hours that is stored
  under the key of a non-empty id is returned when the global list has a live entry for
  that id.
\<close>

theorem visibility:
  "(r \<in> set (fst (getAllActiveStreams now st)) \<longrightarrow>
      isLive r \<and> (vouched now st r \<or> scanned now st r))
   \<and> (wellKeyed st \<and> indexAgrees st \<and> r \<in> set (fst (getAllActiveStreams now st)) \<longrightarrow>
        getItem (stream_key (sid r)) st = Some (VStream r) \<and> isLive r
        \<and> now - startTime r < maxAge \<and> sid r \<noteq> [])
   \<and> (wellKeyed st \<and> indexAgrees st \<and> allActive now st
        \<and> getItem k st = Some (VStream r) \<and> sid r \<noteq> [] \<longrightarrow>
        r \<in> set (fst (getAllActiveStreams now st)))
   \<and> (indexAgrees st \<and> listedLive i st \<and> i \<noteq> []
        \<and> getItem (stream_key i) st = Some (VStream r) \<and> isLive r
        \<and> now - startTime r < maxAge \<longrightarrow>
        r \<in> set (fst (getAllActiveStreams now st)))"
proof (intro conjI impI)
  assume "r \<in> set (fst (getAllActiveStreams now st))"
  then show "isLive r" and "vouched now st r \<or> scanned now st r"
    using getAllStreamsFromStorage_sound [of r now st] by (simp_all add: getAllActiveStreams_def)
next
  assume a: "wellKeyed st \<and> indexAgrees st \<and> r \<in> set (fst (getAllActiveStreams now st))"
  then have r: "r \<in> set (fst (getAllStreamsFromStorage now st))"
    by (simp add: getAllActiveStreams_def)
  from a r show "getItem (stream_key (sid r)) st = Some (VStream r)" and "isLive r"
    and "now - startTime r < maxAge"
    using found_active [of st r now] by simp_all
  from a r show "sid r \<noteq> []"
    using found_has_id by blast
next
  assume "wellKeyed st \<and> indexAgrees st \<and> allActive now st
      \<and> getItem k st = Some (VStream r) \<and> sid r \<noteq> []"
  then show "r \<in> set (fst (getAllActiveStreams now st))"
    using all_returned [of st now k r] by (simp add: getAllActiveStreams_def)
next
  assume "indexAgrees st \<and> listedLive i st \<and> i \<noteq> []
      \<and> getItem (stream_key i) st = Some (VStream r) \<and> isLive r \<and> now - startTime r < maxAge"
  then show "r \<in> set (fst (getAllActiveStreams now st))"
    using listed_returned [of st i r now] by (simp add: getAllActiveStreams_def)
qed

text \<open>
  The claim as stated fails in both directions. Here the global list names \<open>a\<close> with a
  fresh \<^verbatim>\<open>startTime\<close> while the record of \<open>a\<close> is more than 24 hours old, and a second
  record is live and fresh but has the empty id: the old record is returned, the fresh one
  is not.
\<close>

theorem visibility_counterexample:
  "fst (getAllActiveStreams 100000000
      [(stream_key [], VStream (demoStream [] True 99999000)),
       (global_key, VStreams [demoStream ''a'' True 99999000]),
       (stream_key ''a'', VStream (demoStream ''a'' True 5))])
     = [demoStream ''a'' True 5]
   \<and> isLive (demoStream ''a'' True 5)
   \<and> \<not> 100000000 - startTime (demoStream ''a'' True 5) < maxAge
   \<and> demoStream [] True 99999000
       \<notin> set (fst (getAllActiveStreams 100000000
            [(stream_key [], VStream (demoStream [] True 99999000)),
             (global_key, VStreams [demoStream ''a'' True 99999000]),
             (stream_key ''a'', VStream (demoStream ''a'' True 5))]))
   \<and> isLive (demoStream [] True 99999000)
   \<and> 100000000 - startTime (demoStream [] True 99999000) < maxAge"
  by (simp add: getAllActiveStreams_def getAllStreamsFromStorage_def index_pass_def
      index_step_def scan.simps scan_step_def getItem_def removeItem_def maxAge_def
      demoStream_def Let_def)

text \<open>
  Why the converse needs a storage with nothing to delete: the loop reads
  \<^verbatim>\<open>localStorage.key(i)\<close> from the storage it is shrinking. After the removal at index 0
  the record of \<open>b\<close> is at index 0, the loop goes on at index 1, and \<open>b\<close> is not
  returned by this call; the next call returns it.
\<close>

lemma scan_passes_over:
  "getAllActiveStreams 100
      [(stream_key ''a'', Corrupt), (stream_key ''b'', VStream (demoStream ''b'' True 50))]
     = ([], [(stream_key ''b'', VStream (demoStream ''b'' True 50)), (global_key, VStreams [])])
   \<and> fst (getAllActiveStreams 101
        [(stream_key ''b'', VStream (demoStream ''b'' True 50)), (global_key, VStreams [])])
       = [demoStream ''b'' True 50]"
  by (simp add: getAllActiveStreams_def getAllStreamsFromStorage_def index_pass_def
      index_step_def scan.simps scan_step_def getItem_def removeItem_def setItem_def
      maxAge_def demoStream_def Let_def)

text \<open>
  An instance: two live streams, one of them listed in the global list; both are returned.
\<close>

theorem visibility_witness:
  "wellKeyed [(stream_key ''a'', VStream (demoStream ''a'' True 50)),
              (global_key, VStreams [demoStream ''a'' True 50]),
              (stream_key ''b'', VStream (demoStream ''b'' True 60))]
   \<and> indexAgrees [(stream_key ''a'', VStream (demoStream ''a'' True 50)),
              (global_key, VStreams [demoStream ''a'' True 50]),
              (stream_key ''b'', VStream (demoStream ''b'' True 60))]
   \<and> allActive 100 [(stream_key ''a'', VStream (demoStream ''a'' True 50)),
              (global_key, VStreams [demoStream ''a'' True 50]),
              (stream_key ''b'', VStream (demoStream ''b'' True 60))]
   \<and> getItem (stream_key ''b'')
             [(stream_key ''a'', VStream (demoStream ''a'' True 50)),
              (global_key, VStreams [demoStream ''a'' True 50]),
              (stream_key ''b'', VStream (demoStream ''b'' True 60))]
       = Some (VStream (demoStream ''b'' True 60))
   \<and> sid (demoStream ''b'' True 60) \<noteq> []
   \<and> demoStream ''b'' True 60 \<in> set (fst (getAllActiveStreams 100
             [(stream_key ''a'', VStream (demoStream ''a'' True 50)),
              (global_key, VStreams [demoStream ''a'' True 50]),
              (stream_key ''b'', VStream (demoStream ''b'' True 60))]))
   \<and> isLive (demoStream ''b'' True 60)
   \<and> 100 - startTime (demoStream ''b'' True 60) < maxAge
   \<and> listedLive ''a''
             [(stream_key ''a'', VStream (demoStream ''a'' True 50)),
              (global_key, VStreams [demoStream ''a'' True 50]),
              (stream_key ''b'', VStream (demoStream ''b'' True 60))]
   \<and> demoStream ''a'' True 50 \<in> set (fst (getAllActiveStreams 100
             [(stream_key ''a'', VStream (demoStream ''a'' True 50)),
              (global_key, VStreams [demoStream ''a'' True 50]),
              (stream_key ''b'', VStream (demoStream ''b'' True 60))]))"
proof -
  let ?a = "demoStream ''a'' True 50"
  let ?b = "demoStream ''b'' True 60"
  let ?st = "[(stream_key ''a'', VStream ?a), (global_key, VStreams [?a]),
              (stream_key ''b'', VStream ?b)]"
  have h1: "wellKeyed ?st"
    by (simp add: wellKeyed_def demoStream_def)
  have h2: "indexAgrees ?st"
    by (simp add: indexAgrees_def indexOf_def getItem_def demoStream_def)
  have h3: "allActive 100 ?st"
    by (simp add: allActive_def getItem_def maxAge_def demoStream_def)
  have h4: "getItem (stream_key ''b'') ?st = Some (VStream ?b)"
    by (simp add: getItem_def)
  have h5: "sid ?b \<noteq> []"
    by (simp add: demoStream_def)
  have h6: "listedLive ''a'' ?st"
    by (simp add: listedLive_def indexOf_def getItem_def demoStream_def)
  have h7: "getItem (stream_key ''a'') ?st = Some (VStream ?a)"
    by (simp add: getItem_def)
  have h8: "isLive ?a" "100 - startTime ?a < maxAge" "''a'' \<noteq> []"
    by (simp_all add: demoStream_def maxAge_def)
  have r4: "?a \<in> set (fst (getAllActiveStreams 100 ?st))"
    using visibility [of ?a 100 ?st _ "''a''"] h2 h6 h7 h8 by blast
  note v = visibility [of ?b 100 ?st "stream_key ''b''"]
  from v h1 h2 h3 h4 h5 have r1: "?b \<in> set (fst (getAllActiveStreams 100 ?st))"
    by blast
  from v h1 h2 r1 have r2: "isLive ?b" and r3: "100 - startTime ?b < maxAge"
    by blast+
  from h1 h2 h3 h4 h5 r1 r2 r3 h6 r4 show ?thesis
    by (intro conjI)
qed

subsection \<open>The registry lists its live records\<close>

lemma listsLive_iff:
  "listsLive st = (\<forall>k s. getItem k st = Some (VStream s) \<longrightarrow> isLive s \<longrightarrow> sid s \<noteq> []
      \<longrightarrow> listedLive (sid s) st)"
proof
  assume l: "listsLive st"
  show "\<forall>k s. getItem k st = Some (VStream s) \<longrightarrow> isLive s \<longrightarrow> sid s \<noteq> []
      \<longrightarrow> listedLive (sid s) st"
  proof (intro allI impI)
    fix k s
    assume g: "getItem k st = Some (VStream s)" and "isLive s" and "sid s \<noteq> []"
    from g have "(k, VStream s) \<in> set st"
      by (rule getItem_in_set)
    with l have "case getItem k st of Some (VStream s) \<Rightarrow>
        isLive s \<and> sid s \<noteq> [] \<longrightarrow> listedLive (sid s) st | _ \<Rightarrow> True"
      by (auto simp: listsLive_def list_all_iff)
    with g \<open>isLive s\<close> \<open>sid s \<noteq> []\<close> show "listedLive (sid s) st"
      by simp
  qed
next
  assume "\<forall>k s. getItem k st = Some (VStream s) \<longrightarrow> isLive s \<longrightarrow> sid s \<noteq> []
      \<longrightarrow> listedLive (sid s) st"
  then show "listsLive st"
    by (auto simp: listsLive_def list_all_iff split: option.splits StoredValue.splits)
qed

lemma listsLiveD:
  "listsLive st \<Longrightarrow> getItem k st = Some (VStream s) \<Longrightarrow> isLive s \<Longrightarrow> sid s \<noteq> []
     \<Longrightarrow> listedLive (sid s) st"
  by (simp add: listsLive_iff)

lemma indexOf_storeStream:
  "indexOf (storeStream m st)
     = filter (\<lambda>x. sid x \<noteq> sid m) (indexOf st) @ (if isLive m then [m] else [])"
  using getItem_storeStream [of global_key m st] by (simp add: indexOf_def)

lemma listsLive_storeStream:
  assumes wk: "wellKeyed st" and l: "listsLive st"
  shows "listsLive (storeStream m st)"
  unfolding listsLive_iff
proof (intro allI impI)
  fix k s
  assume g: "getItem k (storeStream m st) = Some (VStream s)" and live: "isLive s"
    and ne: "sid s \<noteq> []"
  from g have kg: "k \<noteq> global_key"
    by (auto simp: getItem_storeStream)
  show "listedLive (sid s) (storeStream m st)"
  proof (cases "k = stream_key (sid m)")
    case True
    with g kg have "s = m"
      by (simp add: getItem_storeStream)
    with live show ?thesis
      by (auto simp: listedLive_def indexOf_storeStream)
  next
    case False
    with g kg have g0: "getItem k st = Some (VStream s)"
      by (simp add: getItem_storeStream)
    with wk have "k = stream_key (sid s)"
      by (rule wellKeyed_getItem)
    with False have d: "sid s \<noteq> sid m"
      by auto
    from l g0 live ne have "listedLive (sid s) st"
      by (rule listsLiveD)
    with d show ?thesis
      by (auto simp: listedLive_def indexOf_storeStream)
  qed
qed

lemma listsLive_updateStream:
  "wellKeyed st \<Longrightarrow> listsLive st \<Longrightarrow> listsLive (snd (updateStream now i u st))"
  by (auto simp: updateStream_def listsLive_storeStream split: option.splits)

lemma listsLive_removeItem:
  assumes "listsLive st" and "k \<noteq> global_key"
  shows "listsLive (removeItem k st)"
  unfolding listsLive_iff
proof (intro allI impI)
  fix k' s
  assume g: "getItem k' (removeItem k st) = Some (VStream s)" and "isLive s" and "sid s \<noteq> []"
  have "k' \<noteq> k"
    using g by (auto simp: getItem_removeItem_same)
  with g have "getItem k' st = Some (VStream s)"
    by (simp add: getItem_removeItem_other)
  with assms(1) have "listedLive (sid s) st"
    using \<open>isLive s\<close> \<open>sid s \<noteq> []\<close> by (rule listsLiveD)
  moreover have "indexOf (removeItem k st) = indexOf st"
    using assms(2) by (intro indexOf_other) (simp add: getItem_removeItem_other)
  ultimately show "listedLive (sid s) (removeItem k st)"
    by (simp add: listedLive_def)
qed

lemma listsLive_setItem_chat:
  assumes "listsLive st"
  shows "listsLive (setItem (chat_key i) (VChat ms) st)"
  unfolding listsLive_iff
proof (intro allI impI)
  fix k s
  assume g: "getItem k (setItem (chat_key i) (VChat ms) st) = Some (VStream s)"
    and "isLive s" and "sid s \<noteq> []"
  have "k \<noteq> chat_key i"
    using g by (auto simp: getItem_setItem_same)
  with g have "getItem k st = Some (VStream s)"
    by (simp add: getItem_setItem_other)
  with assms have "listedLive (sid s) st"
    using \<open>isLive s\<close> \<open>sid s \<noteq> []\<close> by (rule listsLiveD)
  moreover have "indexOf (setItem (chat_key i) (VChat ms) st) = indexOf st"
    by (intro indexOf_other) (simp add: getItem_setItem_other)
  ultimately show "listedLive (sid s) (setItem (chat_key i) (VChat ms) st)"
    by (simp add: listedLive_def)
qed

lemma listsLive_filter_index:
  assumes wk: "wellKeyed st" and l: "listsLive st"
    and dead: "\<And>s. getItem (stream_key i) st = Some (VStream s) \<Longrightarrow> \<not> isLive s"
  shows "listsLive (if indexDecodes st
      then setItem global_key (VStreams (filter (\<lambda>s. sid s \<noteq> i) (indexOf st))) st else st)"
proof (cases "indexDecodes st")
  case False
  with l show ?thesis by simp
next
  case True
  let ?st' = "setItem global_key (VStreams (filter (\<lambda>s. sid s \<noteq> i) (indexOf st))) st"
  have "listsLive ?st'"
    unfolding listsLive_iff
  proof (intro allI impI)
    fix k s
    assume g: "getItem k ?st' = Some (VStream s)" and live: "isLive s" and ne: "sid s \<noteq> []"
    have kg: "k \<noteq> global_key"
      using g by (auto simp: getItem_setItem_same)
    with g have g0: "getItem k st = Some (VStream s)"
      by (simp add: getItem_setItem_other)
    with wk have k: "k = stream_key (sid s)"
      by (rule wellKeyed_getItem)
    have "sid s \<noteq> i"
      using dead [of s] g0 k live by auto
    moreover from l g0 live ne have "listedLive (sid s) st"
      by (rule listsLiveD)
    ultimately show "listedLive (sid s) ?st'"
      by (auto simp: listedLive_def)
  qed
  with True show ?thesis by simp
qed

lemma listsLive_removeStreamFromBroadcast:
  assumes wk: "wellKeyed st" and l: "listsLive st"
  shows "listsLive (removeStreamFromBroadcast i st)"
proof -
  let ?st2 = "removeItem (chat_key i) (removeItem (stream_key i) st)"
  have wk2: "wellKeyed ?st2"
    using wk unfolding wellKeyed_def by (intro list_all_removeItem)
  have l2: "listsLive ?st2"
    using l by (intro listsLive_removeItem) simp_all
  have "getItem (stream_key i) ?st2 = None"
    by (simp add: getItem_removeItem_other getItem_removeItem_same)
  then have "listsLive (if indexDecodes ?st2
      then setItem global_key (VStreams (filter (\<lambda>s. sid s \<noteq> i) (indexOf ?st2))) ?st2
      else ?st2)"
    using wk2 l2 by (intro listsLive_filter_index) simp_all
  then show ?thesis
    unfolding removeStreamFromBroadcast_def Let_def filter_index_cases .
qed

lemma updateStream_dead:
  assumes wk: "wellKeyed st"
    and g: "getItem (stream_key i) (snd (updateStream now i (noUpdates\<lparr>p_isLive := Some False\<rparr>) st))
       = Some (VStream s)"
  shows "\<not> isLive s"
proof (cases "getItem (stream_key i) st")
  case None
  with g show ?thesis by (simp add: updateStream_def)
next
  case (Some v)
  show ?thesis
  proof (cases v)
    case (VStream r)
    with Some wk have "stream_key i = stream_key (sid r)"
      using wellKeyed_getItem by blast
    then have i: "sid r = i" by simp
    let ?m = "mergeUpdates r (noUpdates\<lparr>p_isLive := Some False\<rparr>) now"
    have m: "sid ?m = i" "\<not> isLive ?m"
      using i by (simp_all add: mergeUpdates_def noUpdates_def)
    from Some VStream have "snd (updateStream now i (noUpdates\<lparr>p_isLive := Some False\<rparr>) st)
        = storeStream ?m st"
      by (simp add: updateStream_def)
    with g m show ?thesis
      by (simp add: getItem_storeStream)
  qed (use Some g in \<open>simp_all add: updateStream_def\<close>)
qed

lemma listsLive_endStream:
  assumes wk: "wellKeyed st" and l: "listsLive st"
  shows "listsLive (endStream now i st)"
proof -
  let ?st1 = "snd (updateStream now i (noUpdates\<lparr>p_isLive := Some False\<rparr>) st)"
  let ?st2 = "if indexDecodes ?st1
      then setItem global_key (VStreams (filter (\<lambda>s. sid s \<noteq> i) (indexOf ?st1))) ?st1
      else ?st1"
  have wk1: "wellKeyed ?st1"
    using wk by (rule wellKeyed_updateStream)
  have l1: "listsLive ?st1"
    using wk l by (rule listsLive_updateStream)
  have "listsLive ?st2"
    using wk1 l1 updateStream_dead [OF wk] by (intro listsLive_filter_index) blast+
  then have "listsLive (removeItem (chat_key i) (removeItem (stream_key i) ?st2))"
    by (intro listsLive_removeItem) simp_all
  then show ?thesis
    unfolding endStream_def Let_def filter_index_cases .
qed

text \<open>
  An entry of the global list that is 24 hours old makes the reconciliation delete the
  record of its id.
\<close>

lemma index_steps_keep_None:
  "getItem k (fst s) = None \<Longrightarrow> getItem k (fst (fold (index_step now) es s)) = None"
  using set_fold_index_step [of now es s] by (rule getItem_None_subset)

lemma index_step_stale:
  assumes "maxAge \<le> now - startTime e"
  shows "getItem (stream_key (sid e)) (fst (index_step now e s)) = None"
  using assms by (cases s) (simp add: index_step_def Let_def getItem_removeItem_same)

lemma index_steps_stale:
  "e \<in> set es \<Longrightarrow> maxAge \<le> now - startTime e
     \<Longrightarrow> getItem (stream_key (sid e)) (fst (fold (index_step now) es s)) = None"
proof (induction es arbitrary: s)
  case Nil
  then show ?case by simp
next
  case (Cons x es)
  show ?case
  proof (cases "e \<in> set es")
    case True
    then show ?thesis
      using Cons.IH [OF True Cons.prems(2)] by simp
  next
    case False
    with Cons.prems(1) have "x = e" by simp
    then have "getItem (stream_key (sid e)) (fst (index_step now x s)) = None"
      using Cons.prems(2) by (simp add: index_step_stale)
    then show ?thesis
      by (simp add: index_steps_keep_None)
  qed
qed

lemma stale_deleted:
  assumes "e \<in> set (indexOf st)" and "maxAge \<le> now - startTime e"
  shows "getItem (stream_key (sid e)) (snd (getAllStreamsFromStorage now st)) = None"
proof -
  let ?k = "stream_key (sid e)"
  have "indexOf st \<noteq> []"
    using assms(1) by auto
  then obtain xs where g: "getItem global_key st = Some (VStreams xs)" and xs: "indexOf st = xs"
    by (auto simp: indexOf_def split: option.splits StoredValue.splits)
  have ip: "index_pass now (st, [], {}) = fold (index_step now) xs (st, [], {})"
    by (simp add: index_pass_def g)
  have "getItem ?k (fst (fold (index_step now) xs (st, [], {}))) = None"
    using assms xs by (intro index_steps_stale) simp_all
  then have "getItem ?k (fst (scan now 0 (index_pass now (st, [], {})))) = None"
    using set_scan [of now 0 "index_pass now (st, [], {})"] ip
    by (auto intro: getItem_None_subset)
  then show ?thesis
    by (cases "scan now 0 (index_pass now (st, [], {}))")
       (simp add: getAllStreamsFromStorage_def Let_def getItem_setItem_other)
qed

lemma indexOf_getAllStreamsFromStorage:
  "indexOf (snd (getAllStreamsFromStorage now st)) = fst (getAllStreamsFromStorage now st)"
  by (simp add: indexOf_def getAllStreamsFromStorage_global)

lemma listsLive_getAllStreamsFromStorage:
  assumes c: "consistent st" and l: "listsLive st"
  shows "listsLive (snd (getAllStreamsFromStorage now st))"
  unfolding listsLive_iff
proof (intro allI impI)
  from c have wk: "wellKeyed st" and ia: "indexAgrees st"
    by (simp_all add: consistent_def)
  let ?st' = "snd (getAllStreamsFromStorage now st)"
  fix k s
  assume g: "getItem k ?st' = Some (VStream s)" and live: "isLive s" and ne: "sid s \<noteq> []"
  have kg: "k \<noteq> global_key"
    using g by (auto simp: getAllStreamsFromStorage_global)
  with g have g0: "getItem k st = Some (VStream s)"
    using getAllStreamsFromStorage_other [OF kg, of now st] by auto
  with wk have k: "k = stream_key (sid s)"
    by (rule wellKeyed_getItem)
  from l g0 live ne have ll: "listedLive (sid s) st"
    by (rule listsLiveD)
  then obtain e where e: "e \<in> set (indexOf st)" "sid e = sid s" "isLive e"
    by (auto simp: listedLive_def)
  with ia g0 k have st: "startTime e = startTime s"
    by (auto simp: indexAgrees_def list_all_iff)
  have young: "now - startTime s < maxAge"
  proof (rule ccontr)
    assume "\<not> now - startTime s < maxAge"
    with st have "maxAge \<le> now - startTime e" by simp
    with e(1) have "getItem (stream_key (sid e)) ?st' = None"
      by (rule stale_deleted)
    with g k e(2) show False by simp
  qed
  have "s \<in> set (fst (getAllStreamsFromStorage now st))"
    using ia ll ne g0 [unfolded k] live young by (rule listed_returned)
  with live show "listedLive (sid s) ?st'"
    by (auto simp: listedLive_def indexOf_getAllStreamsFromStorage)
qed

text \<open>
  A storage is maintained when it is consistent and lists its live records. All calls of
  the registry keep a storage maintained.
\<close>

lemma consistent_wellKeyed: "consistent st \<Longrightarrow> wellKeyed st"
  by (simp add: consistent_def)

lemma maintained_storeStream:
  "consistent st \<and> listsLive st \<Longrightarrow> consistent (storeStream m st) \<and> listsLive (storeStream m st)"
  by (simp add: consistent_storeStream listsLive_storeStream consistent_wellKeyed)

lemma maintained_updateStream:
  "consistent st \<and> listsLive st
     \<Longrightarrow> consistent (snd (updateStream now i u st)) \<and> listsLive (snd (updateStream now i u st))"
  by (simp add: consistent_updateStream listsLive_updateStream consistent_wellKeyed)

lemma maintained_getAllActiveStreams:
  "consistent st \<and> listsLive st
     \<Longrightarrow> consistent (snd (getAllActiveStreams now st)) \<and> listsLive (snd (getAllActiveStreams now st))"
  by (simp add: getAllActiveStreams_def consistent_getAllStreamsFromStorage
      listsLive_getAllStreamsFromStorage)

lemma maintained_setItem_chat:
  "consistent st \<and> listsLive st
     \<Longrightarrow> consistent (setItem (chat_key i) (VChat ms) st)
       \<and> listsLive (setItem (chat_key i) (VChat ms) st)"
  by (simp add: consistent_setItem_chat listsLive_setItem_chat)

lemma maintained_sendMessage:
  assumes "consistent st \<and> listsLive st"
  shows "consistent (snd (sendMessage i sender' msg addr now newId st))
     \<and> listsLive (snd (sendMessage i sender' msg addr now newId st))"
proof (cases rule: sendMessage_shape [of i st sender' msg addr now newId])
  case failed
  with assms show ?thesis by simp
next
  case sent
  with assms show ?thesis by (simp add: maintained_setItem_chat)
qed

lemma maintained_joinStream:
  assumes "consistent st \<and> listsLive st"
  shows "consistent (snd (joinStream i v now newId st))
     \<and> listsLive (snd (joinStream i v now newId st))"
proof (cases rule: joinStream_shape [of i now st v newId])
  case missing
  with assms show ?thesis by (simp add: maintained_getAllActiveStreams)
next
  case (threw r st2)
  with assms show ?thesis
    by (simp add: maintained_getAllActiveStreams maintained_updateStream)
next
  case (joined r st2)
  with assms show ?thesis
    by (simp add: maintained_getAllActiveStreams maintained_updateStream
        maintained_setItem_chat)
qed

lemma maintained_leaveStream:
  assumes "consistent st \<and> listsLive st"
  shows "consistent (snd (leaveStream i v now newId st))
     \<and> listsLive (snd (leaveStream i v now newId st))"
proof (cases rule: leaveStream_shape [of i now st v newId])
  case missing
  with assms show ?thesis by (simp add: maintained_getAllActiveStreams)
next
  case (threw r st2)
  with assms show ?thesis
    by (simp add: maintained_getAllActiveStreams maintained_updateStream)
next
  case (left r st2)
  with assms show ?thesis
    by (simp add: maintained_getAllActiveStreams maintained_updateStream
        maintained_setItem_chat)
qed

lemma maintained_storeStreamFromBroadcast:
  "consistent st \<and> listsLive st
     \<Longrightarrow> consistent (storeStreamFromBroadcast s st) \<and> listsLive (storeStreamFromBroadcast s st)"
  by (auto simp: storeStreamFromBroadcast_def maintained_storeStream split: option.splits)

lemma maintained_onMessage:
  assumes "consistent st \<and> listsLive st"
  shows "consistent (onMessage w now msg st) \<and> listsLive (onMessage w now msg st)"
proof (cases msg)
  case (StreamCreatedMessage s)
  with assms show ?thesis
    using maintained_getAllActiveStreams [OF maintained_storeStreamFromBroadcast [OF assms]]
    by (simp add: syncStreams_def getAllActiveStreams_def)
next
  case (StreamEndedMessage i)
  from assms have "consistent (removeStreamFromBroadcast i st)
      \<and> listsLive (removeStreamFromBroadcast i st)"
    by (simp add: consistent_removeStreamFromBroadcast listsLive_removeStreamFromBroadcast
        consistent_wellKeyed)
  then show ?thesis
    using StreamEndedMessage maintained_getAllActiveStreams
    by (simp add: syncStreams_def getAllActiveStreams_def)
next
  case SyncRequestMessage
  with assms show ?thesis
    using maintained_getAllActiveStreams [OF assms] by (simp add: getAllActiveStreams_def)
next
  case (SyncResponseMessage sender' streams)
  have "consistent (fold storeStreamFromBroadcast streams st')
      \<and> listsLive (fold storeStreamFromBroadcast streams st')"
    if "consistent st' \<and> listsLive st'" for st'
    using that
    by (induction streams arbitrary: st') (simp_all add: maintained_storeStreamFromBroadcast)
  with assms SyncResponseMessage show ?thesis
    using maintained_getAllActiveStreams
    by (simp add: syncStreams_def getAllActiveStreams_def)
next
  case OtherMessage
  with assms show ?thesis by simp
qed

lemma maintained_perform:
  assumes "consistent st \<and> listsLive st"
  shows "consistent (perform c st) \<and> listsLive (perform c st)"
proof (cases c)
  case (Create streamData now streamId')
  with assms show ?thesis
    by (simp add: createStream_def Let_def maintained_storeStream)
next
  case (Update now streamId' updates)
  with assms show ?thesis by (simp add: maintained_updateStream)
next
  case (End now streamId')
  with assms show ?thesis
    by (simp add: consistent_endStream listsLive_endStream consistent_wellKeyed)
next
  case (Reconcile now)
  with assms show ?thesis by (simp add: maintained_getAllActiveStreams)
next
  case (Chat op)
  with assms show ?thesis
    by (cases op) (simp_all add: maintained_sendMessage maintained_joinStream
        maintained_leaveStream)
next
  case (Broadcast w now msg)
  with assms show ?thesis by (simp add: maintained_onMessage)
qed

text \<open>
  Every storage that the calls of the registry build from the empty storage lists its live
  records.
\<close>

lemma listsLive_reachable: "listsLive (fold perform cs [])"
proof -
  have "consistent st \<and> listsLive st
      \<Longrightarrow> consistent (fold perform cs st) \<and> listsLive (fold perform cs st)" for st
    by (induction cs arbitrary: st) (simp_all add: maintained_perform)
  moreover have "listsLive []"
    by (simp add: listsLive_def)
  ultimately show ?thesis
    using consistent_empty by blast
qed

subsection \<open>Rounding to a double\<close>

lemma bitLength_bounds: "0 < n \<Longrightarrow> 2 ^ (bitLength n - 1) \<le> n \<and> n < 2 ^ bitLength n"
proof (induction n rule: bitLength.induct)
  case (1 n)
  show ?case
  proof (cases "n div 2 = 0")
    case True
    with 1(2) have "n = 1" by (auto simp: div_eq_0_iff)
    then show ?thesis
      by (simp add: bitLength.simps [of "Suc 0"] bitLength.simps [of 0])
  next
    case False
    then have ih: "2 ^ (bitLength (n div 2) - 1) \<le> n div 2 \<and> n div 2 < 2 ^ bitLength (n div 2)"
      using 1 by auto
    have pos: "0 < bitLength (n div 2)"
      using False by (simp add: bitLength.simps [of "n div 2"])
    have e: "bitLength n = Suc (bitLength (n div 2))"
      using 1(2) by (simp add: bitLength.simps [of n])
    from pos have p: "(2::nat) ^ bitLength (n div 2) = 2 * 2 ^ (bitLength (n div 2) - 1)"
      by (cases "bitLength (n div 2)") simp_all
    from ih have "2 * 2 ^ (bitLength (n div 2) - 1) \<le> n"
      by linarith
    moreover from ih have "n < 2 * 2 ^ bitLength (n div 2)"
      by linarith
    ultimately show ?thesis
      by (simp add: e p)
  qed
qed

lemma roundMagnitude_cases:
  "roundMagnitude m = (m div 2 ^ (bitLength m - 53)) * 2 ^ (bitLength m - 53)
   \<or> roundMagnitude m = (m div 2 ^ (bitLength m - 53) + 1) * 2 ^ (bitLength m - 53)"
  unfolding roundMagnitude_def Let_def by (rule if_split [THEN iffD2]) blast

lemma bitLength_large:
  assumes "2 ^ 53 \<le> m"
  shows "54 \<le> bitLength m"
proof (rule ccontr)
  from assms have pos: "0 < m"
    by (metis less_le_trans zero_less_numeral zero_less_power)
  assume "\<not> 54 \<le> bitLength m"
  then have "bitLength m \<le> 53" by simp
  then have "(2::nat) ^ bitLength m \<le> 2 ^ 53"
    by (rule power_increasing) simp
  moreover have "m < 2 ^ bitLength m"
    using bitLength_bounds [OF pos] by blast
  ultimately show False
    using assms by linarith
qed

lemma roundMagnitude_lower:
  assumes "2 ^ 53 \<le> m"
  shows "2 ^ 53 \<le> roundMagnitude m"
proof -
  define b where "b = bitLength m"
  define u where "u = (2::nat) ^ (b - 53)"
  define c where "c = (2::nat) ^ 52"
  from assms have pos: "0 < m"
    by (metis less_le_trans zero_less_numeral zero_less_power)
  have lo: "2 ^ (b - 1) \<le> m"
    using bitLength_bounds [OF pos] by (simp add: b_def)
  have b54: "54 \<le> b"
    unfolding b_def using assms by (rule bitLength_large)
  then have "b - 1 = 52 + (b - 53)"
    by simp
  then have "(2::nat) ^ (b - 1) = 2 ^ (52 + (b - 53))"
    by (rule arg_cong)
  then have split: "(2::nat) ^ (b - 1) = c * u"
    by (simp only: power_add c_def u_def)
  have upos: "0 < u"
    by (simp add: u_def)
  from lo split have "c * u \<le> m" by simp
  then have "c \<le> m div u"
    using upos by (simp add: less_eq_div_iff_mult_less_eq)
  then have q: "c * u \<le> (m div u) * u"
    by (rule mult_le_mono1)
  from b54 have "b - 53 = Suc (b - 54)" by simp
  then have "u = 2 * 2 ^ (b - 54)"
    by (simp add: u_def)
  then have u2: "2 \<le> u"
    by simp
  have "(2::nat) ^ 53 = c * 2"
    by (simp add: c_def)
  also have "\<dots> \<le> c * u"
    using u2 by (rule mult_le_mono2)
  finally have base: "2 ^ 53 \<le> (m div u) * u"
    using q by (rule le_trans)
  have step: "(m div u) * u \<le> (m div u + 1) * u"
    by (rule mult_le_mono1) simp
  from roundMagnitude_cases [of m] show ?thesis
  proof
    assume "roundMagnitude m = (m div 2 ^ (bitLength m - 53)) * 2 ^ (bitLength m - 53)"
    with base show ?thesis by (simp only: u_def b_def)
  next
    assume "roundMagnitude m = (m div 2 ^ (bitLength m - 53) + 1) * 2 ^ (bitLength m - 53)"
    with base step show ?thesis by (simp only: u_def b_def)
  qed
qed

lemma roundDouble_exact: "\<bar>x\<bar> \<le> 2 ^ 53 \<Longrightarrow> roundDouble x = x"
  by (simp add: roundDouble_def)

lemma int_roundMagnitude_lower:
  assumes "2 ^ 53 < \<bar>x\<bar>"
  shows "(2::int) ^ 53 \<le> int (roundMagnitude (nat \<bar>x\<bar>))"
proof -
  from assms have "int (2 ^ 53) \<le> \<bar>x\<bar>"
    by simp
  then have "(2::nat) ^ 53 \<le> nat \<bar>x\<bar>"
    by (simp only: le_nat_iff [symmetric] nat_int)
  then have "2 ^ 53 \<le> roundMagnitude (nat \<bar>x\<bar>)"
    by (rule roundMagnitude_lower)
  then have "int (2 ^ 53) \<le> int (roundMagnitude (nat \<bar>x\<bar>))"
    by (simp only: of_nat_le_iff)
  then show ?thesis
    by simp
qed

lemma roundDouble_above: "2 ^ 53 < x \<Longrightarrow> 2 ^ 53 \<le> roundDouble x"
  using int_roundMagnitude_lower [of x] by (simp add: roundDouble_def)

lemma roundDouble_below: "x < - (2 ^ 53) \<Longrightarrow> roundDouble x \<le> - (2 ^ 53)"
  using int_roundMagnitude_lower [of x] by (simp add: roundDouble_def)

text \<open>
  The age tests of the reconciliation, \<^verbatim>\<open>streamAge < maxAge\<close> and
  \<^verbatim>\<open>streamAge >= maxAge\<close>, have the same outcome on the difference and on the double
  nearest to it.
\<close>

lemma age_rounding:
  "(roundDouble (now - start) < maxAge) = (now - start < maxAge)"
  "(maxAge \<le> roundDouble (now - start)) = (maxAge \<le> now - start)"
proof -
  let ?x = "now - start"
  have m: "maxAge < 2 ^ 53" "- (2 ^ 53) < maxAge"
    by (simp_all add: maxAge_def)
  consider (exact) "\<bar>?x\<bar> \<le> 2 ^ 53" | (above) "2 ^ 53 < ?x" | (below) "?x < - (2 ^ 53)"
    by linarith
  then have "(roundDouble ?x < maxAge) = (?x < maxAge)"
  proof cases
    case exact
    then show ?thesis by (simp add: roundDouble_exact)
  next
    case above
    with roundDouble_above [OF above] m show ?thesis by linarith
  next
    case below
    with roundDouble_below [OF below] m show ?thesis by linarith
  qed
  then show "(roundDouble ?x < maxAge) = (?x < maxAge)"
    and "(maxAge \<le> roundDouble ?x) = (maxAge \<le> ?x)"
    by linarith+
qed

lemma roundDouble_succ: "0 \<le> c \<Longrightarrow> c < 2 ^ 53 \<Longrightarrow> roundDouble (c + 1) = c + 1"
  by (rule roundDouble_exact) simp

lemma roundDouble_pred: "0 \<le> c \<Longrightarrow> c < 2 ^ 53 \<Longrightarrow> roundDouble (c - 1) = c - 1"
  by (rule roundDouble_exact) simp

lemma bitLength_2_53_1: "bitLength 9007199254740993 = 54"
  by (simp add: bitLength.simps)

lemma roundDouble_2_53: "roundDouble (9007199254740992 + 1) = 9007199254740992"
  by (simp add: roundDouble_def roundMagnitude_def Let_def bitLength_2_53_1)

subsection \<open>Viewer counts of active streams\<close>

lemma active_found:
  assumes c: "consistent st" and l: "listsLive st" and i: "i \<noteq> []"
    and r: "getItem (stream_key i) st = Some (VStream r)" "isLive r"
      "now - startTime r < maxAge"
  shows "find (\<lambda>s. sid s = i) (fst (getAllActiveStreams now st)) = Some r"
proof -
  from c have wk: "wellKeyed st" and ia: "indexAgrees st"
    by (simp_all add: consistent_def)
  from wk r(1) have "stream_key i = stream_key (sid r)"
    by (rule wellKeyed_getItem)
  then have sr: "sid r = i" by simp
  from l r(1,2) i sr have ll: "listedLive i st"
    using listsLiveD by fastforce
  have "r \<in> set (fst (getAllStreamsFromStorage now st))"
    using ia ll i r by (rule listed_returned)
  with sr have "i \<in> sid ` set (fst (getAllActiveStreams now st))"
    by (force simp: getAllActiveStreams_def)
  then obtain r' where f: "find (\<lambda>s. sid s = i) (fst (getAllActiveStreams now st)) = Some r'"
    using find_sid_None [of i "fst (getAllActiveStreams now st)"] by fastforce
  then have "r' \<in> set (fst (getAllStreamsFromStorage now st))" and "sid r' = i"
    using find_sid_Some [of i _ r'] by (simp_all add: getAllActiveStreams_def)
  then have "getItem (stream_key i) st = Some (VStream r')"
    using found_active [OF wk ia] by blast
  with r(1) f show ?thesis by simp
qed

lemma typed_lookup_update:
  assumes "typed st"
  shows "typed (snd (updateStream now i u (snd (getAllActiveStreams t st))))"
  using assms unfolding typed_def
  by (intro kept_updateStream kept_getAllActiveStreams written_typedEntry)

lemma joinStream_found:
  assumes wk: "wellKeyed st" and ia: "indexAgrees st"
    and f: "find (\<lambda>s. sid s = i) (fst (getAllActiveStreams now st)) = Some r"
  shows "getItem (stream_key i) (snd (joinStream i v now newId st))
       = Some (VStream (r\<lparr>viewerCount := roundDouble (viewerCount r + 1), lastUpdate := now\<rparr>))
     \<and> fst (joinStream i v now newId st) \<noteq> Inr False
     \<and> (typed st \<longrightarrow> fst (joinStream i v now newId st) = Inr True)"
proof -
  let ?c = "roundDouble (viewerCount r + 1)"
  let ?st2 = "snd (updateStream now i (noUpdates\<lparr>p_viewerCount := Some ?c\<rparr>)
      (snd (getAllActiveStreams now st)))"
  have u: "getItem (stream_key i) ?st2 = Some (VStream (r\<lparr>viewerCount := ?c, lastUpdate := now\<rparr>))"
    using found_updated [OF wk ia f, of ?c] by simp
  have t: "spreadMessages i ?st2 \<noteq> None" if "typed st"
    using typed_chat [OF typed_lookup_update [OF that], of i now i _ now] by simp
  show ?thesis
  proof (cases rule: joinStream_shape [of i now st v newId])
    case missing
    with f show ?thesis by simp
  next
    case (threw r' st2)
    with f have "st2 = ?st2" by simp
    with threw u t show ?thesis by auto
  next
    case (joined r' st2)
    with f have "st2 = ?st2" by simp
    with joined u show ?thesis by (simp add: getItem_setItem_other)
  qed
qed

lemma leaveStream_found:
  assumes wk: "wellKeyed st" and ia: "indexAgrees st"
    and f: "find (\<lambda>s. sid s = i) (fst (getAllActiveStreams now st)) = Some r"
  shows "getItem (stream_key i) (snd (leaveStream i v now newId st))
       = Some (VStream (r\<lparr>viewerCount := max 0 (roundDouble (viewerCount r - 1)),
                          lastUpdate := now\<rparr>))
     \<and> fst (leaveStream i v now newId st) \<noteq> Inr False
     \<and> (typed st \<longrightarrow> fst (leaveStream i v now newId st) = Inr True)"
proof -
  let ?c = "max 0 (roundDouble (viewerCount r - 1))"
  let ?st2 = "snd (updateStream now i (noUpdates\<lparr>p_viewerCount := Some ?c\<rparr>)
      (snd (getAllActiveStreams now st)))"
  have u: "getItem (stream_key i) ?st2 = Some (VStream (r\<lparr>viewerCount := ?c, lastUpdate := now\<rparr>))"
    using found_updated [OF wk ia f, of ?c] by simp
  have t: "spreadMessages i ?st2 \<noteq> None" if "typed st"
    using typed_chat [OF typed_lookup_update [OF that], of i now i _ now] by simp
  show ?thesis
  proof (cases rule: leaveStream_shape [of i now st v newId])
    case missing
    with f show ?thesis by simp
  next
    case (threw r' st2)
    with f have "st2 = ?st2" by simp
    with threw u t show ?thesis by auto
  next
    case (left r' st2)
    with f have "st2 = ?st2" by simp
    with left u show ?thesis by (simp add: getItem_setItem_other)
  qed
qed

lemma empty_id_not_found:
  assumes "wellKeyed st"
  shows "[] \<notin> sid ` set (fst (getAllActiveStreams now st))"
proof
  assume "[] \<in> sid ` set (fst (getAllActiveStreams now st))"
  then obtain r where "r \<in> set (fst (getAllStreamsFromStorage now st))" and "sid r = []"
    by (auto simp: getAllActiveStreams_def)
  with found_has_id [OF assms, of r now] show False
    by simp
qed

lemma roundDouble_at_2_53: "roundDouble 9007199254740993 = 9007199254740992"
  by (simp add: roundDouble_def roundMagnitude_def Let_def bitLength_2_53_1)

text \<open>
  C8, as the code has it. Starting from stored viewer counts that are not negative, any
  number of \<^verbatim>\<open>leaveStream\<close> calls leaves every stored viewer count at 0 or above; this
  holds for the records all together and for the record under each single key. In a
  consistent storage that lists its live records (every storage the registry builds is
  one), a stream with an id that is not empty, a live record younger than 24 hours and a
  viewer count from 0 to below \<open>2 ^ 53\<close> is found by \<^verbatim>\<open>joinStream\<close> and by
  \<^verbatim>\<open>leaveStream\<close>: a join leaves the record with its count raised by exactly 1 (and
  \<^verbatim>\<open>lastUpdate\<close> set), a leave with its count lowered by 1, but not below 0; in a typed
  storage both return \<^verbatim>\<open>true\<close>. At any count, the count a join leaves is the double
  nearest to the count plus 1, and the count a leave leaves is the double nearest to the
  count minus 1, or 0 if that is negative. For the empty id, \<^verbatim>\<open>joinStream\<close> and
  \<^verbatim>\<open>leaveStream\<close> return \<^verbatim>\<open>false\<close> and leave what their lookup leaves.
\<close>

theorem viewer_count:
  "(countsNonneg st \<longrightarrow> countsNonneg (leaveStreams calls st))
   \<and> (storedNonneg k st \<longrightarrow> storedNonneg k (leaveStreams calls st))
   \<and> (consistent st \<and> listsLive st \<and> i \<noteq> []
        \<and> getItem (stream_key i) st = Some (VStream r) \<and> isLive r
        \<and> now - startTime r < maxAge \<and> 0 \<le> viewerCount r \<and> viewerCount r < 2 ^ 53 \<longrightarrow>
        fst (joinStream i v now newId st) \<noteq> Inr False
        \<and> getItem (stream_key i) (snd (joinStream i v now newId st))
            = Some (VStream (r\<lparr>viewerCount := viewerCount r + 1, lastUpdate := now\<rparr>))
        \<and> fst (leaveStream i v now newId st) \<noteq> Inr False
        \<and> getItem (stream_key i) (snd (leaveStream i v now newId st))
            = Some (VStream (r\<lparr>viewerCount := max 0 (viewerCount r - 1), lastUpdate := now\<rparr>))
        \<and> (typed st \<longrightarrow> fst (joinStream i v now newId st) = Inr True
              \<and> fst (leaveStream i v now newId st) = Inr True))
   \<and> (consistent st \<and> listsLive st \<and> i \<noteq> []
        \<and> getItem (stream_key i) st = Some (VStream r) \<and> isLive r
        \<and> now - startTime r < maxAge \<longrightarrow>
        getItem (stream_key i) (snd (joinStream i v now newId st))
            = Some (VStream (r\<lparr>viewerCount := roundDouble (viewerCount r + 1),
                                lastUpdate := now\<rparr>))
        \<and> getItem (stream_key i) (snd (leaveStream i v now newId st))
            = Some (VStream (r\<lparr>viewerCount := max 0 (roundDouble (viewerCount r - 1)),
                                lastUpdate := now\<rparr>)))
   \<and> (wellKeyed st \<longrightarrow>
        joinStream [] v now newId st = (Inr False, snd (getAllActiveStreams now st))
        \<and> leaveStream [] v now newId st = (Inr False, snd (getAllActiveStreams now st)))"
proof (intro conjI impI)
  assume "countsNonneg st"
  then show "countsNonneg (leaveStreams calls st)"
    by (rule countsNonneg_leaveStreams)
next
  assume "storedNonneg k st"
  then show "storedNonneg k (leaveStreams calls st)"
    by (rule storedNonneg_leaveStreams)
next
  assume a: "consistent st \<and> listsLive st \<and> i \<noteq> []
      \<and> getItem (stream_key i) st = Some (VStream r) \<and> isLive r
      \<and> now - startTime r < maxAge \<and> 0 \<le> viewerCount r \<and> viewerCount r < 2 ^ 53"
  then have wk: "wellKeyed st" and ia: "indexAgrees st"
    by (simp_all add: consistent_def)
  from a have f: "find (\<lambda>s. sid s = i) (fst (getAllActiveStreams now st)) = Some r"
    by (intro active_found) simp_all
  from a have up: "roundDouble (viewerCount r + 1) = viewerCount r + 1"
    and down: "roundDouble (viewerCount r - 1) = viewerCount r - 1"
    by (simp_all add: roundDouble_succ roundDouble_pred)
  note j = joinStream_found [OF wk ia f, of v newId, unfolded up]
  note l = leaveStream_found [OF wk ia f, of v newId, unfolded down]
  from j show "fst (joinStream i v now newId st) \<noteq> Inr False"
    by blast
  from j show "getItem (stream_key i) (snd (joinStream i v now newId st))
      = Some (VStream (r\<lparr>viewerCount := viewerCount r + 1, lastUpdate := now\<rparr>))"
    by blast
  from l show "fst (leaveStream i v now newId st) \<noteq> Inr False"
    by blast
  from l show "getItem (stream_key i) (snd (leaveStream i v now newId st))
      = Some (VStream (r\<lparr>viewerCount := max 0 (viewerCount r - 1), lastUpdate := now\<rparr>))"
    by blast
  assume "typed st"
  with j show "fst (joinStream i v now newId st) = Inr True"
    by blast
  from l \<open>typed st\<close> show "fst (leaveStream i v now newId st) = Inr True"
    by blast
next
  assume a: "consistent st \<and> listsLive st \<and> i \<noteq> []
      \<and> getItem (stream_key i) st = Some (VStream r) \<and> isLive r
      \<and> now - startTime r < maxAge"
  then have wk: "wellKeyed st" and ia: "indexAgrees st"
    by (simp_all add: consistent_def)
  from a have f: "find (\<lambda>s. sid s = i) (fst (getAllActiveStreams now st)) = Some r"
    by (intro active_found) simp_all
  from joinStream_found [OF wk ia f, of v newId]
  show "getItem (stream_key i) (snd (joinStream i v now newId st))
      = Some (VStream (r\<lparr>viewerCount := roundDouble (viewerCount r + 1), lastUpdate := now\<rparr>))"
    by blast
  from leaveStream_found [OF wk ia f, of v newId]
  show "getItem (stream_key i) (snd (leaveStream i v now newId st))
      = Some (VStream (r\<lparr>viewerCount := max 0 (roundDouble (viewerCount r - 1)),
                          lastUpdate := now\<rparr>))"
    by blast
next
  assume wk: "wellKeyed st"
  then have nf: "[] \<notin> sid ` set (fst (getAllActiveStreams now st))"
    by (rule empty_id_not_found)
  then show "joinStream [] v now newId st = (Inr False, snd (getAllActiveStreams now st))"
    by (rule joinStream_not_found)
  from nf show "leaveStream [] v now newId st = (Inr False, snd (getAllActiveStreams now st))"
    by (rule leaveStream_not_found)
qed

text \<open>
  The claim as stated fails for a live record younger than 24 hours whose id is empty, which
  \<^verbatim>\<open>updateStream\<close> can leave: the lookup returns no record with an empty id, so
  \<^verbatim>\<open>joinStream\<close> returns \<^verbatim>\<open>false\<close> and the count stays. It also fails at a count of
  \<open>2 ^ 53\<close>, where the double nearest to the count plus 1 is the count itself.
\<close>

theorem viewer_count_counterexample:
  "fold perform [Create (demoStream ''x'' True 50) 50 ''a'',
                 Update 60 ''a'' (noUpdates\<lparr>p_sid := Some []\<rparr>)] []
     = [(stream_key ''a'', VStream (demoStream ''a'' True 50)),
        (global_key, VStreams [demoStream ''a'' True 50,
                               (demoStream [] True 50)\<lparr>lastUpdate := 60\<rparr>]),
        (stream_key [], VStream ((demoStream [] True 50)\<lparr>lastUpdate := 60\<rparr>))]
   \<and> isLive ((demoStream [] True 50)\<lparr>lastUpdate := 60\<rparr>)
   \<and> 100 - startTime ((demoStream [] True 50)\<lparr>lastUpdate := 60\<rparr>) < maxAge
   \<and> viewerCount ((demoStream [] True 50)\<lparr>lastUpdate := 60\<rparr>) = 0
   \<and> fst (joinStream [] ''Bob'' 100 ''j1''
        [(stream_key ''a'', VStream (demoStream ''a'' True 50)),
         (global_key, VStreams [demoStream ''a'' True 50,
                                (demoStream [] True 50)\<lparr>lastUpdate := 60\<rparr>]),
         (stream_key [], VStream ((demoStream [] True 50)\<lparr>lastUpdate := 60\<rparr>))]) = Inr False
   \<and> getItem (stream_key []) (snd (joinStream [] ''Bob'' 100 ''j1''
        [(stream_key ''a'', VStream (demoStream ''a'' True 50)),
         (global_key, VStreams [demoStream ''a'' True 50,
                                (demoStream [] True 50)\<lparr>lastUpdate := 60\<rparr>]),
         (stream_key [], VStream ((demoStream [] True 50)\<lparr>lastUpdate := 60\<rparr>))]))
       = Some (VStream ((demoStream [] True 50)\<lparr>lastUpdate := 60\<rparr>))
   \<and> fold perform [Create ((demoStream ''x'' True 50)\<lparr>viewerCount := 2 ^ 53\<rparr>) 50 ''b''] []
     = [(stream_key ''b'', VStream ((demoStream ''b'' True 50)\<lparr>viewerCount := 2 ^ 53\<rparr>)),
        (global_key, VStreams [(demoStream ''b'' True 50)\<lparr>viewerCount := 2 ^ 53\<rparr>])]
   \<and> fst (joinStream ''b'' ''Bob'' 100 ''j1''
        [(stream_key ''b'', VStream ((demoStream ''b'' True 50)\<lparr>viewerCount := 2 ^ 53\<rparr>)),
         (global_key, VStreams [(demoStream ''b'' True 50)\<lparr>viewerCount := 2 ^ 53\<rparr>])]) = Inr True
   \<and> getItem (stream_key ''b'') (snd (joinStream ''b'' ''Bob'' 100 ''j1''
        [(stream_key ''b'', VStream ((demoStream ''b'' True 50)\<lparr>viewerCount := 2 ^ 53\<rparr>)),
         (global_key, VStreams [(demoStream ''b'' True 50)\<lparr>viewerCount := 2 ^ 53\<rparr>])]))
       = Some (VStream ((demoStream ''b'' True 50)\<lparr>viewerCount := 2 ^ 53, lastUpdate := 100\<rparr>))"
proof -
  let ?a = "demoStream ''a'' True 50"
  let ?e = "(demoStream [] True 50)\<lparr>lastUpdate := 60\<rparr>"
  let ?st1 = "[(stream_key ''a'', VStream ?a), (global_key, VStreams [?a, ?e]),
               (stream_key [], VStream ?e)]"
  let ?b = "(demoStream ''b'' True 50)\<lparr>viewerCount := 2 ^ 53\<rparr>"
  let ?st2 = "[(stream_key ''b'', VStream ?b), (global_key, VStreams [?b])]"
  have b1: "fold perform [Create (demoStream ''x'' True 50) 50 ''a'',
                 Update 60 ''a'' (noUpdates\<lparr>p_sid := Some []\<rparr>)] [] = ?st1"
    by (simp add: createStream_def updateStream_def storeStream_def mergeUpdates_def
        noUpdates_def getItem_def setItem_def demoStream_def Let_def)
  have p1: "isLive ?e" "100 - startTime ?e < maxAge" "viewerCount ?e = 0"
    by (simp_all add: demoStream_def maxAge_def)
  let ?st1' = "[(stream_key ''a'', VStream ?a), (global_key, VStreams [?a]),
                (stream_key [], VStream ?e)]"
  have g1: "getAllActiveStreams 100 ?st1 = ([?a], ?st1')"
    by (simp add: getAllActiveStreams_def getAllStreamsFromStorage_def index_pass_def
        index_step_def scan.simps scan_step_def getItem_def removeItem_def setItem_def
        maxAge_def demoStream_def Let_def)
  have j1: "joinStream [] ''Bob'' 100 ''j1'' ?st1 = (Inr False, ?st1')"
    unfolding joinStream_def g1 by (simp add: demoStream_def)
  have s1: "getItem (stream_key []) ?st1' = Some (VStream ?e)"
    by (simp add: getItem_def)
  have b2: "fold perform [Create ((demoStream ''x'' True 50)\<lparr>viewerCount := 2 ^ 53\<rparr>) 50 ''b''] []
      = ?st2"
    by (simp add: createStream_def storeStream_def getItem_def setItem_def demoStream_def Let_def)
  have g2: "getAllActiveStreams 100 ?st2 = ([?b], ?st2)"
    by (simp add: getAllActiveStreams_def getAllStreamsFromStorage_def index_pass_def
        index_step_def scan.simps scan_step_def getItem_def removeItem_def setItem_def
        maxAge_def demoStream_def Let_def)
  have j2: "joinStream ''b'' ''Bob'' 100 ''j1'' ?st2
      = (Inr True,
         [(stream_key ''b'', VStream (?b\<lparr>lastUpdate := 100\<rparr>)),
          (global_key, VStreams [?b\<lparr>lastUpdate := 100\<rparr>]),
          (chat_key ''b'', VChat [systemMessage Join ''b'' ''Bob joined the stream'' 100 ''j1''])])"
    unfolding joinStream_def g2
    by (simp add: updateStream_def storeStream_def mergeUpdates_def
        noUpdates_def spreadMessages_def getChatMessages_def getItem_def setItem_def
        slice_last_def roundDouble_at_2_53 demoStream_def Let_def)
  have s2: "getItem (stream_key ''b'')
        [(stream_key ''b'', VStream (?b\<lparr>lastUpdate := 100\<rparr>)),
         (global_key, VStreams [?b\<lparr>lastUpdate := 100\<rparr>]),
         (chat_key ''b'', VChat [systemMessage Join ''b'' ''Bob joined the stream'' 100 ''j1''])]
      = Some (VStream (?b\<lparr>lastUpdate := 100\<rparr>))"
    by (simp add: getItem_def)
  show ?thesis
    unfolding b1 b2 j1 j2 fst_conv snd_conv s1 s2
    using p1 by (simp add: demoStream_def)
qed

text \<open>
  An instance: a live stream with no viewers, as \<^verbatim>\<open>createStream\<close> leaves it. Leaving it
  twice keeps the counts at 0 or above, one leave keeps the count at 0, and one join raises
  it to 1.
\<close>

theorem viewer_count_witness:
  "countsNonneg [(stream_key ''a'', VStream (demoStream ''a'' True 50)),
                 (global_key, VStreams [demoStream ''a'' True 50])]
   \<and> countsNonneg (leaveStreams [(''a'', ''Bob'', 100, ''l1''), (''a'', ''Bob'', 101, ''l2'')]
        [(stream_key ''a'', VStream (demoStream ''a'' True 50)),
         (global_key, VStreams [demoStream ''a'' True 50])])
   \<and> storedNonneg (stream_key ''a'')
        [(stream_key ''a'', VStream (demoStream ''a'' True 50)),
         (global_key, VStreams [demoStream ''a'' True 50])]
   \<and> storedNonneg (stream_key ''a'')
        (leaveStreams [(''a'', ''Bob'', 100, ''l1''), (''a'', ''Bob'', 101, ''l2'')]
          [(stream_key ''a'', VStream (demoStream ''a'' True 50)),
           (global_key, VStreams [demoStream ''a'' True 50])])
   \<and> consistent [(stream_key ''a'', VStream (demoStream ''a'' True 50)),
                 (global_key, VStreams [demoStream ''a'' True 50])]
   \<and> listsLive [(stream_key ''a'', VStream (demoStream ''a'' True 50)),
                 (global_key, VStreams [demoStream ''a'' True 50])]
   \<and> typed [(stream_key ''a'', VStream (demoStream ''a'' True 50)),
                 (global_key, VStreams [demoStream ''a'' True 50])]
   \<and> getItem (stream_key ''a'') [(stream_key ''a'', VStream (demoStream ''a'' True 50)),
                 (global_key, VStreams [demoStream ''a'' True 50])]
       = Some (VStream (demoStream ''a'' True 50))
   \<and> viewerCount (demoStream ''a'' True 50) = 0
   \<and> fst (joinStream ''a'' ''Bob'' 100 ''j1''
        [(stream_key ''a'', VStream (demoStream ''a'' True 50)),
         (global_key, VStreams [demoStream ''a'' True 50])]) = Inr True
   \<and> getItem (stream_key ''a'') (snd (joinStream ''a'' ''Bob'' 100 ''j1''
        [(stream_key ''a'', VStream (demoStream ''a'' True 50)),
         (global_key, VStreams [demoStream ''a'' True 50])]))
       = Some (VStream ((demoStream ''a'' True 50)\<lparr>viewerCount := 1, lastUpdate := 100\<rparr>))
   \<and> fst (leaveStream ''a'' ''Bob'' 100 ''l1''
        [(stream_key ''a'', VStream (demoStream ''a'' True 50)),
         (global_key, VStreams [demoStream ''a'' True 50])]) = Inr True
   \<and> getItem (stream_key ''a'') (snd (leaveStream ''a'' ''Bob'' 100 ''l1''
        [(stream_key ''a'', VStream (demoStream ''a'' True 50)),
         (global_key, VStreams [demoStream ''a'' True 50])]))
       = Some (VStream ((demoStream ''a'' True 50)\<lparr>viewerCount := 0, lastUpdate := 100\<rparr>))
   \<and> joinStream [] ''Bob'' 100 ''j1''
        [(stream_key ''a'', VStream (demoStream ''a'' True 50)),
         (global_key, VStreams [demoStream ''a'' True 50])]
       = (Inr False, snd (getAllActiveStreams 100
           [(stream_key ''a'', VStream (demoStream ''a'' True 50)),
            (global_key, VStreams [demoStream ''a'' True 50])]))
   \<and> roundDouble (viewerCount (demoStream ''a'' True 50) + 1) = 1"
proof -
  let ?a = "demoStream ''a'' True 50"
  let ?st = "[(stream_key ''a'', VStream ?a), (global_key, VStreams [?a])]"
  let ?calls = "[(''a'', ''Bob'', 100, ''l1''), (''a'', ''Bob'', 101, ''l2'')]"
  have h1: "countsNonneg ?st"
    by (simp add: countsNonneg_def demoStream_def)
  have g: "getItem (stream_key ''a'') ?st = Some (VStream ?a)"
    by (simp add: getItem_def)
  have c0: "viewerCount ?a = 0" and li: "isLive ?a" and yo: "100 - startTime ?a < maxAge"
    by (simp_all add: demoStream_def maxAge_def)
  have h0: "storedNonneg (stream_key ''a'') ?st"
    by (simp add: storedNonneg_def g c0)
  have h2: "consistent ?st"
    by (simp add: consistent_def wellKeyed_def indexAgrees_def indexOf_def getItem_def
        demoStream_def)
  have h3: "listsLive ?st"
    by (simp add: listsLive_def listedLive_def indexOf_def getItem_def demoStream_def)
  have h4: "typed ?st"
    by (simp add: typed_def typedEntry_def)
  have ne: "''a'' \<noteq> []"
    by simp
  have r1: "countsNonneg (leaveStreams ?calls ?st)"
    using viewer_count [of ?st ?calls] h1 by blast
  have r0: "storedNonneg (stream_key ''a'') (leaveStreams ?calls ?st)"
    using viewer_count [of ?st ?calls "stream_key ''a''"] h0 by blast
  have b: "0 \<le> viewerCount ?a" "viewerCount ?a < 2 ^ 53"
    by (simp_all add: c0)
  note vj = viewer_count [of ?st _ _ "''a''" ?a 100 "''Bob''" "''j1''"]
  note vl = viewer_count [of ?st _ _ "''a''" ?a 100 "''Bob''" "''l1''"]
  from vj h2 h3 ne g li yo b h4 have j: "fst (joinStream ''a'' ''Bob'' 100 ''j1'' ?st) = Inr True"
    by blast
  from vj h2 h3 ne g li yo b have "getItem (stream_key ''a'')
        (snd (joinStream ''a'' ''Bob'' 100 ''j1'' ?st))
      = Some (VStream (?a\<lparr>viewerCount := viewerCount ?a + 1, lastUpdate := 100\<rparr>))"
    by blast
  then have r2: "getItem (stream_key ''a'') (snd (joinStream ''a'' ''Bob'' 100 ''j1'' ?st))
      = Some (VStream (?a\<lparr>viewerCount := 1, lastUpdate := 100\<rparr>))"
    by (simp add: c0)
  from vl h2 h3 ne g li yo b h4 have l: "fst (leaveStream ''a'' ''Bob'' 100 ''l1'' ?st) = Inr True"
    by blast
  from vl h2 h3 ne g li yo b have "getItem (stream_key ''a'')
        (snd (leaveStream ''a'' ''Bob'' 100 ''l1'' ?st))
      = Some (VStream (?a\<lparr>viewerCount := max 0 (viewerCount ?a - 1), lastUpdate := 100\<rparr>))"
    by blast
  then have r3: "getItem (stream_key ''a'') (snd (leaveStream ''a'' ''Bob'' 100 ''l1'' ?st))
      = Some (VStream (?a\<lparr>viewerCount := 0, lastUpdate := 100\<rparr>))"
    by (simp add: c0)
  have h5: "wellKeyed ?st"
    using h2 by (simp add: consistent_def)
  from viewer_count [of ?st _ _ _ _ 100 "''Bob''" "''j1''"] h5
  have r4: "joinStream [] ''Bob'' 100 ''j1'' ?st = (Inr False, snd (getAllActiveStreams 100 ?st))"
    by blast
  from vj h2 h3 ne g li yo have "getItem (stream_key ''a'')
        (snd (joinStream ''a'' ''Bob'' 100 ''j1'' ?st))
      = Some (VStream (?a\<lparr>viewerCount := roundDouble (viewerCount ?a + 1),
                          lastUpdate := 100\<rparr>))"
    by blast
  with r2 have "VStream (?a\<lparr>viewerCount := roundDouble (viewerCount ?a + 1),
                                lastUpdate := 100\<rparr>)
      = VStream (?a\<lparr>viewerCount := 1, lastUpdate := 100\<rparr>)"
    by simp
  then have "viewerCount (?a\<lparr>viewerCount := roundDouble (viewerCount ?a + 1),
                              lastUpdate := 100\<rparr>)
      = viewerCount (?a\<lparr>viewerCount := 1, lastUpdate := 100\<rparr>)"
    by simp
  then have r5: "roundDouble (viewerCount ?a + 1) = 1"
    by simp
  from h1 r1 h0 r0 h2 h3 h4 g c0 j r2 l r3 r4 r5 show ?thesis
    by (intro conjI)
qed

subsection \<open>A reconciliation does not read the values of other keys\<close>

lemma setItem_cases:
  "setItem k v st = (if k \<in> fst ` set st then replaceValue k v st else st @ [(k, v)])"
  by (simp add: setItem_def replaceValue_def)

lemma length_replaceValue [simp]: "length (replaceValue g w st) = length st"
  by (simp add: replaceValue_def)

lemma fst_nth_replaceValue: "i < length st \<Longrightarrow> fst (replaceValue g w st ! i) = fst (st ! i)"
  by (simp add: replaceValue_def split: prod.splits)

lemma keys_replaceValue [simp]: "fst ` set (replaceValue g w st) = fst ` set st"
  by (force simp: replaceValue_def split: if_splits)

lemma getItem_replaceValue: "k \<noteq> g \<Longrightarrow> getItem k (replaceValue g w st) = getItem k st"
  by (induction st) (auto simp: getItem_def replaceValue_def)

lemma removeItem_replaceValue:
  "k \<noteq> g \<Longrightarrow> removeItem k (replaceValue g w st) = replaceValue g w (removeItem k st)"
  by (induction st) (auto simp: removeItem_def replaceValue_def split: if_splits)

lemma replaceValue_twice [simp]: "replaceValue g v (replaceValue g w st) = replaceValue g v st"
  by (induction st) (auto simp: replaceValue_def)

lemma replaceValue_absent: "g \<notin> fst ` set st \<Longrightarrow> replaceValue g w st = st"
  by (induction st) (auto simp: replaceValue_def)

lemma setItem_replaceValue: "setItem g v (replaceValue g w st) = setItem g v st"
  by (simp add: setItem_cases replaceValue_absent)

lemma scan_step_replaceValue:
  assumes "k \<noteq> g"
  shows "scan_step now k (replaceValue g w st, xs, ids)
     = onStorage (replaceValue g w) (scan_step now k (st, xs, ids))"
  using assms
  by (simp add: scan_step_def onStorage_def Let_def getItem_replaceValue
      removeItem_replaceValue split: option.splits)

lemma scan_replaceValue:
  assumes g: "\<not> prefix stream_prefix g"
  shows "scan now i (onStorage (replaceValue g w) s) = onStorage (replaceValue g w) (scan now i s)"
proof (induction now i s rule: scan.induct)
  case (1 now i st streams ids)
  let ?f = "replaceValue g w"
  have o: "onStorage ?f (st, streams, ids) = (?f st, streams, ids)"
    by (simp add: onStorage_def)
  show ?case
  proof (cases "i < length st")
    case False
    then show ?thesis
      by (simp add: o scan.simps [of now i])
  next
    case i: True
    then have key: "fst (?f st ! i) = fst (st ! i)"
      by (rule fst_nth_replaceValue)
    show ?thesis
    proof (cases "prefix stream_prefix (fst (st ! i))")
      case False
      with i key "1.IH"(2) show ?thesis
        by (simp add: o scan.simps [of now i])
    next
      case True
      with g have ne: "fst (st ! i) \<noteq> g" by auto
      have "scan now i (?f st, streams, ids)
          = scan now (Suc i) (scan_step now (fst (st ! i)) (?f st, streams, ids))"
        using i key True by (simp add: scan.simps [of now i])
      also have "\<dots> = scan now (Suc i)
          (onStorage ?f (scan_step now (fst (st ! i)) (st, streams, ids)))"
        by (simp only: scan_step_replaceValue [OF ne])
      also have "\<dots> = onStorage ?f
          (scan now (Suc i) (scan_step now (fst (st ! i)) (st, streams, ids)))"
        using "1.IH"(1) [OF i True] .
      also have "\<dots> = onStorage ?f (scan now i (st, streams, ids))"
        using i True by (simp add: scan.simps [of now i])
      finally show ?thesis
        by (simp only: o)
    qed
  qed
qed

lemma getItem_snoc: "k \<noteq> g \<Longrightarrow> getItem k (st @ [(g, w)]) = getItem k st"
  by (simp add: getItem_def map_add_def split: option.splits)

lemma removeItem_snoc: "k \<noteq> g \<Longrightarrow> removeItem k (st @ [(g, w)]) = removeItem k st @ [(g, w)]"
  by (simp add: removeItem_def)

lemma scan_step_snoc:
  assumes "k \<noteq> g"
  shows "scan_step now k (st @ [(g, w)], xs, ids)
     = onStorage (\<lambda>st'. st' @ [(g, w)]) (scan_step now k (st, xs, ids))"
  using assms
  by (simp add: scan_step_def onStorage_def Let_def getItem_snoc removeItem_snoc
      split: option.splits)

lemma scan_snoc:
  assumes g: "\<not> prefix stream_prefix g"
  shows "scan now i (onStorage (\<lambda>st'. st' @ [(g, w)]) s)
     = onStorage (\<lambda>st'. st' @ [(g, w)]) (scan now i s)"
proof (induction now i s rule: scan.induct)
  case (1 now i st streams ids)
  let ?f = "\<lambda>st'. st' @ [(g, w)]"
  have o: "onStorage ?f (st, streams, ids) = (st @ [(g, w)], streams, ids)"
    by (simp add: onStorage_def)
  show ?case
  proof (cases "i < length st")
    case False
    have "scan now i (st @ [(g, w)], streams, ids) = (st @ [(g, w)], streams, ids)"
    proof (cases "i = length st")
      case True
      with g show ?thesis
        by (simp add: scan.simps [of now "length st"] scan.simps [of now "Suc (length st)"])
    next
      case ne: False
      with False show ?thesis
        by (simp add: scan.simps [of now i])
    qed
    with False show ?thesis
      by (simp add: o scan.simps [of now i st])
  next
    case i: True
    then have key: "fst ((st @ [(g, w)]) ! i) = fst (st ! i)"
      by (simp add: nth_append)
    from i have i': "i < length (st @ [(g, w)])"
      by simp
    show ?thesis
    proof (cases "prefix stream_prefix (fst (st ! i))")
      case False
      have "scan now i (st @ [(g, w)], streams, ids)
          = scan now (Suc i) (st @ [(g, w)], streams, ids)"
        using i' key False by (simp add: scan.simps [of now i "st @ [(g, w)]"])
      also have "\<dots> = onStorage ?f (scan now (Suc i) (st, streams, ids))"
        using "1.IH"(2) [OF i False] by (simp only: o)
      also have "\<dots> = onStorage ?f (scan now i (st, streams, ids))"
        using i False by (simp add: scan.simps [of now i st])
      finally show ?thesis
        by (simp only: o)
    next
      case True
      with g have ne: "fst (st ! i) \<noteq> g" by auto
      have "scan now i (st @ [(g, w)], streams, ids)
          = scan now (Suc i) (scan_step now (fst (st ! i)) (st @ [(g, w)], streams, ids))"
        using i' key True by (simp add: scan.simps [of now i "st @ [(g, w)]"])
      also have "\<dots> = scan now (Suc i)
          (onStorage ?f (scan_step now (fst (st ! i)) (st, streams, ids)))"
        by (simp only: scan_step_snoc [OF ne])
      also have "\<dots> = onStorage ?f
          (scan now (Suc i) (scan_step now (fst (st ! i)) (st, streams, ids)))"
        using "1.IH"(1) [OF i True] .
      also have "\<dots> = onStorage ?f (scan now i (st, streams, ids))"
        using i True by (simp add: scan.simps [of now i st])
      finally show ?thesis
        by (simp only: o)
    qed
  qed
qed

text \<open>
  A reconciliation gives the same result whether the global list is missing or does not
  decode, or is the empty list: in both cases it goes straight to the scan.
\<close>

lemma reconcile_empty_index:
  assumes nd: "\<not> indexDecodes st"
  shows "getAllStreamsFromStorage now (setItem global_key (VStreams []) st)
     = getAllStreamsFromStorage now st"
proof -
  let ?w = "VStreams []"
  let ?st' = "setItem global_key ?w st"
  obtain st2 xs ids where sc: "scan now 0 (st, [], {}) = (st2, xs, ids)"
    by (cases "scan now 0 (st, [], {})") auto
  have ip: "index_pass now (st, [], {}) = (st, [], {})"
    using nd by (simp add: index_pass_undecodable)
  have ip': "index_pass now (?st', [], {}) = (?st', [], {})"
    by (simp add: index_pass_def getItem_setItem_same)
  have right: "getAllStreamsFromStorage now st
      = (filter isLive xs, setItem global_key (VStreams (filter isLive xs)) st2)"
    by (simp add: getAllStreamsFromStorage_def ip sc Let_def)
  show ?thesis
  proof (cases "global_key \<in> fst ` set st")
    case True
    then have e: "?st' = replaceValue global_key ?w st"
      by (simp add: setItem_cases)
    have "scan now 0 (?st', [], {}) = onStorage (replaceValue global_key ?w) (scan now 0 (st, [], {}))"
      using scan_replaceValue [of global_key now 0 ?w "(st, [], {})"]
      by (simp add: e onStorage_def)
    then have "scan now 0 (?st', [], {}) = (replaceValue global_key ?w st2, xs, ids)"
      by (simp add: sc onStorage_def)
    then have "getAllStreamsFromStorage now ?st'
        = (filter isLive xs,
           setItem global_key (VStreams (filter isLive xs)) (replaceValue global_key ?w st2))"
      by (simp add: getAllStreamsFromStorage_def ip' Let_def)
    with right show ?thesis
      by (simp add: setItem_replaceValue)
  next
    case False
    then have e: "?st' = st @ [(global_key, ?w)]"
      by (simp add: setItem_cases)
    have "scan now 0 (?st', [], {})
        = onStorage (\<lambda>st'. st' @ [(global_key, ?w)]) (scan now 0 (st, [], {}))"
      using scan_snoc [of global_key now 0 ?w "(st, [], {})"]
      by (simp add: e onStorage_def)
    then have s': "scan now 0 (?st', [], {}) = (st2 @ [(global_key, ?w)], xs, ids)"
      by (simp add: sc onStorage_def)
    have "set st2 \<subseteq> set st"
      using set_scan [of now 0 "(st, [], {})"] by (simp add: sc)
    with False have ab: "global_key \<notin> fst ` set st2"
      by auto
    then have "setItem global_key (VStreams (filter isLive xs)) (st2 @ [(global_key, ?w)])
        = setItem global_key (VStreams (filter isLive xs)) st2"
      by (simp add: setItem_cases replaceValue_def replaceValue_absent [unfolded replaceValue_def])
    with s' have "getAllStreamsFromStorage now ?st'
        = (filter isLive xs, setItem global_key (VStreams (filter isLive xs)) st2)"
      by (simp add: getAllStreamsFromStorage_def ip' Let_def)
    with right show ?thesis
      by simp
  qed
qed

subsection \<open>Broadcast messages and local calls\<close>

lemma streamEnded_reconciled:
  assumes wk: "wellKeyed st"
  shows "syncStreams now (removeStreamFromBroadcast i st)
     = snd (getAllStreamsFromStorage now (endStream t i st))"
proof (cases "hasRecord i st")
  case False
  then have "removeStreamFromBroadcast i st = endStream t i st"
    by (rule endStream_no_record)
  then show ?thesis
    by (simp add: syncStreams_def)
next
  case True
  with wk obtain r where r: "getItem (stream_key i) st = Some (VStream r)" "sid r = i"
    using hasRecord_wellKeyed by blast
  show ?thesis
  proof (cases "indexDecodes st")
    case True
    then have "removeStreamFromBroadcast i st = endStream t i st"
      by (simp add: removeStreamFromBroadcast_decodes endStream_record [OF r] Let_def)
    then show ?thesis
      by (simp add: syncStreams_def)
  next
    case False
    let ?R = "removeItem (chat_key i) (removeItem (stream_key i) st)"
    have b: "removeStreamFromBroadcast i st = ?R"
      using False by (rule removeStreamFromBroadcast_undecodable)
    have e: "endStream t i st = setItem global_key (VStreams []) ?R"
      using False by (simp add: endStream_record [OF r] Let_def indexOf_undecodable)
    have "getItem global_key ?R = getItem global_key st"
      by (simp add: getItem_removeItem_other)
    with False have "\<not> indexDecodes ?R"
      by (simp add: indexDecodes_def)
    then have "getAllStreamsFromStorage now (setItem global_key (VStreams []) ?R)
        = getAllStreamsFromStorage now ?R"
      by (rule reconcile_empty_index)
    then show ?thesis
      by (simp add: syncStreams_def b e)
  qed
qed

text \<open>
  C4, as the code has it. The listener of the broadcast channel calls the helper and then,
  in the same call, \<^verbatim>\<open>syncStreams\<close>. A \<^verbatim>\<open>streamCreated\<close> message carrying \<open>s\<close> leaves
  the storage that a local persist (\<^verbatim>\<open>storeStream\<close>) followed by a reconciliation leaves
  only when \<open>s\<close> is live, has an id, and its individual key is not occupied; otherwise the
  message leaves what a reconciliation alone leaves: the helper does not overwrite a record
  that is stored and does not store a stream that is not live. A \<^verbatim>\<open>streamEnded\<close> message
  carrying an id leaves a well-keyed, typed storage as a local \<^verbatim>\<open>endStream\<close> of that id
  followed by a reconciliation leaves it.
\<close>

theorem broadcast_mutations:
  "(isLive s \<and> sid s \<noteq> [] \<and> \<not> occupied (stream_key (sid s)) st \<longrightarrow>
      onMessage w now (StreamCreatedMessage s) st
        = snd (getAllActiveStreams now (storeStream s st)))
   \<and> (\<not> (isLive s \<and> sid s \<noteq> [] \<and> \<not> occupied (stream_key (sid s)) st) \<longrightarrow>
      onMessage w now (StreamCreatedMessage s) st = snd (getAllActiveStreams now st))
   \<and> (wellKeyed st \<and> typed st \<longrightarrow>
      onMessage w now (StreamEndedMessage i) st
        = snd (getAllActiveStreams now (endStream t i st)))"
proof (intro conjI impI)
  assume "isLive s \<and> sid s \<noteq> [] \<and> \<not> occupied (stream_key (sid s)) st"
  then have "storeStreamFromBroadcast s st = storeStream s st"
    by (auto simp: storeStreamFromBroadcast_def occupied_def split: option.splits)
  then show "onMessage w now (StreamCreatedMessage s) st
      = snd (getAllActiveStreams now (storeStream s st))"
    by (simp add: syncStreams_def getAllActiveStreams_def)
next
  assume "\<not> (isLive s \<and> sid s \<noteq> [] \<and> \<not> occupied (stream_key (sid s)) st)"
  then have "storeStreamFromBroadcast s st = st"
    by (auto simp: storeStreamFromBroadcast_def occupied_def split: option.splits)
  then show "onMessage w now (StreamCreatedMessage s) st = snd (getAllActiveStreams now st)"
    by (simp add: syncStreams_def getAllActiveStreams_def)
next
  assume "wellKeyed st \<and> typed st"
  then show "onMessage w now (StreamEndedMessage i) st
      = snd (getAllActiveStreams now (endStream t i st))"
    by (simp add: streamEnded_reconciled getAllActiveStreams_def)
qed

text \<open>
  The claim as stated fails. A \<^verbatim>\<open>streamCreated\<close> message for a stream whose record is
  stored leaves that record as it is, where a local persist overwrites it (here the viewer
  count 5 stays, a persist writes 0), with or without a reconciliation after it. A
  \<^verbatim>\<open>streamEnded\<close> message also reconciles: here it deletes the record of another stream
  that is not live, which a local \<^verbatim>\<open>endStream\<close> call leaves in place.
\<close>

theorem broadcast_mutations_counterexample:
  "onMessage ''w'' 100 (StreamCreatedMessage (demoStream ''a'' True 50))
       [(stream_key ''a'', VStream ((demoStream ''a'' True 50)\<lparr>viewerCount := 5\<rparr>)),
        (global_key, VStreams [(demoStream ''a'' True 50)\<lparr>viewerCount := 5\<rparr>])]
     = [(stream_key ''a'', VStream ((demoStream ''a'' True 50)\<lparr>viewerCount := 5\<rparr>)),
        (global_key, VStreams [(demoStream ''a'' True 50)\<lparr>viewerCount := 5\<rparr>])]
   \<and> storeStream (demoStream ''a'' True 50)
       [(stream_key ''a'', VStream ((demoStream ''a'' True 50)\<lparr>viewerCount := 5\<rparr>)),
        (global_key, VStreams [(demoStream ''a'' True 50)\<lparr>viewerCount := 5\<rparr>])]
     = [(stream_key ''a'', VStream (demoStream ''a'' True 50)),
        (global_key, VStreams [demoStream ''a'' True 50])]
   \<and> snd (getAllActiveStreams 100
       [(stream_key ''a'', VStream (demoStream ''a'' True 50)),
        (global_key, VStreams [demoStream ''a'' True 50])])
     = [(stream_key ''a'', VStream (demoStream ''a'' True 50)),
        (global_key, VStreams [demoStream ''a'' True 50])]
   \<and> (demoStream ''a'' True 50)\<lparr>viewerCount := 5\<rparr> \<noteq> demoStream ''a'' True 50
   \<and> onMessage ''w'' 100 (StreamEndedMessage ''a'')
       [(stream_key ''b'', VStream (demoStream ''b'' False 50)), (global_key, VStreams [])]
     = [(global_key, VStreams [])]
   \<and> endStream 100 ''a''
       [(stream_key ''b'', VStream (demoStream ''b'' False 50)), (global_key, VStreams [])]
     = [(stream_key ''b'', VStream (demoStream ''b'' False 50)), (global_key, VStreams [])]"
proof -
  let ?a = "demoStream ''a'' True 50"
  let ?a5 = "(demoStream ''a'' True 50)\<lparr>viewerCount := 5\<rparr>"
  let ?b = "demoStream ''b'' False 50"
  let ?st1 = "[(stream_key ''a'', VStream ?a5), (global_key, VStreams [?a5])]"
  let ?st1' = "[(stream_key ''a'', VStream ?a), (global_key, VStreams [?a])]"
  let ?st2 = "[(stream_key ''b'', VStream ?b), (global_key, VStreams [])]"
  have h: "storeStreamFromBroadcast ?a ?st1 = ?st1"
    by (simp add: storeStreamFromBroadcast_def getItem_def demoStream_def)
  have g1: "getAllStreamsFromStorage 100 ?st1 = ([?a5], ?st1)"
    by (simp add: getAllStreamsFromStorage_def index_pass_def index_step_def scan.simps
        scan_step_def getItem_def removeItem_def setItem_def maxAge_def demoStream_def Let_def)
  have c1: "onMessage ''w'' 100 (StreamCreatedMessage ?a) ?st1 = ?st1"
    by (simp only: onMessage.simps syncStreams_def h g1 snd_conv)
  have c2: "storeStream ?a ?st1 = ?st1'"
    by (simp add: storeStream_def getItem_def setItem_def demoStream_def Let_def)
  have c3: "snd (getAllActiveStreams 100 ?st1') = ?st1'"
    by (simp add: getAllActiveStreams_def getAllStreamsFromStorage_def index_pass_def
        index_step_def scan.simps scan_step_def getItem_def removeItem_def setItem_def
        maxAge_def demoStream_def Let_def)
  have c4: "?a5 \<noteq> ?a"
    by (simp add: demoStream_def)
  have r: "removeStreamFromBroadcast ''a'' ?st2 = ?st2"
    by (simp add: removeStreamFromBroadcast_def getItem_def removeItem_def setItem_def Let_def)
  have g2: "getAllStreamsFromStorage 100 ?st2 = ([], [(global_key, VStreams [])])"
    by (simp add: getAllStreamsFromStorage_def index_pass_def index_step_def scan.simps
        scan_step_def getItem_def removeItem_def setItem_def maxAge_def demoStream_def Let_def)
  have c5: "onMessage ''w'' 100 (StreamEndedMessage ''a'') ?st2 = [(global_key, VStreams [])]"
    by (simp only: onMessage.simps syncStreams_def r g2 snd_conv)
  have c6: "endStream 100 ''a'' ?st2 = ?st2"
    by (simp add: endStream_def updateStream_def getItem_def removeItem_def setItem_def Let_def)
  from c1 c2 c3 c4 c5 c6 show ?thesis
    by (intro conjI)
qed

text \<open>
  Instances of the three cases: a new live stream arriving at an empty storage, a stream
  that is not live, and the end of a stream whose record is stored without a global list
  (where \<^verbatim>\<open>endStream\<close> writes an empty global list and the helper writes none).
\<close>

theorem broadcast_mutations_witness:
  "isLive (demoStream ''a'' True 50) \<and> sid (demoStream ''a'' True 50) \<noteq> []
   \<and> \<not> occupied (stream_key (sid (demoStream ''a'' True 50))) []
   \<and> onMessage ''w'' 100 (StreamCreatedMessage (demoStream ''a'' True 50)) []
       = snd (getAllActiveStreams 100 (storeStream (demoStream ''a'' True 50) []))
   \<and> snd (getAllActiveStreams 100 (storeStream (demoStream ''a'' True 50) []))
       = [(stream_key ''a'', VStream (demoStream ''a'' True 50)),
          (global_key, VStreams [demoStream ''a'' True 50])]
   \<and> \<not> isLive (demoStream ''b'' False 50)
   \<and> onMessage ''w'' 100 (StreamCreatedMessage (demoStream ''b'' False 50)) []
       = snd (getAllActiveStreams 100 [])
   \<and> snd (getAllActiveStreams 100 []) = [(global_key, VStreams [])]
   \<and> wellKeyed [(stream_key ''a'', VStream (demoStream ''a'' True 50))]
   \<and> typed [(stream_key ''a'', VStream (demoStream ''a'' True 50))]
   \<and> onMessage ''w'' 100 (StreamEndedMessage ''a'')
        [(stream_key ''a'', VStream (demoStream ''a'' True 50))]
       = snd (getAllActiveStreams 100
           (endStream 90 ''a'' [(stream_key ''a'', VStream (demoStream ''a'' True 50))]))
   \<and> endStream 90 ''a'' [(stream_key ''a'', VStream (demoStream ''a'' True 50))]
       = [(global_key, VStreams [])]
   \<and> removeStreamFromBroadcast ''a'' [(stream_key ''a'', VStream (demoStream ''a'' True 50))]
       = []"
proof -
  let ?a = "demoStream ''a'' True 50"
  let ?b = "demoStream ''b'' False 50"
  let ?st3 = "[(stream_key ''a'', VStream ?a)]"
  have a1: "isLive ?a" and a2: "sid ?a \<noteq> []" and a3: "\<not> occupied (stream_key (sid ?a)) []"
    by (simp_all add: demoStream_def occupied_def getItem_def)
  have b1: "\<not> isLive ?b"
    by (simp add: demoStream_def)
  have d1: "wellKeyed ?st3" and d2: "typed ?st3"
    by (simp_all add: wellKeyed_def typed_def typedEntry_def demoStream_def)
  have r1: "onMessage ''w'' 100 (StreamCreatedMessage ?a) []
      = snd (getAllActiveStreams 100 (storeStream ?a []))"
    using broadcast_mutations [of ?a "[]" "''w''" 100] a1 a2 a3 by blast
  have s1: "storeStream ?a [] = [(stream_key ''a'', VStream ?a), (global_key, VStreams [?a])]"
    by (simp add: storeStream_def getItem_def setItem_def demoStream_def Let_def)
  have v1: "snd (getAllActiveStreams 100 (storeStream ?a []))
      = [(stream_key ''a'', VStream ?a), (global_key, VStreams [?a])]"
    unfolding s1
    by (simp add: getAllActiveStreams_def getAllStreamsFromStorage_def index_pass_def
        index_step_def scan.simps scan_step_def getItem_def removeItem_def setItem_def
        maxAge_def demoStream_def Let_def)
  have r2: "onMessage ''w'' 100 (StreamCreatedMessage ?b) [] = snd (getAllActiveStreams 100 [])"
    using broadcast_mutations [of ?b "[]" "''w''" 100] b1 by blast
  have v2: "snd (getAllActiveStreams 100 []) = [(global_key, VStreams [])]"
    by (simp add: getAllActiveStreams_def getAllStreamsFromStorage_def index_pass_def
        scan.simps getItem_def setItem_def)
  have r3: "onMessage ''w'' 100 (StreamEndedMessage ''a'') ?st3
      = snd (getAllActiveStreams 100 (endStream 90 ''a'' ?st3))"
    using broadcast_mutations [of _ ?st3 "''w''" 100 "''a''" 90] d1 d2 by blast
  have v3: "endStream 90 ''a'' ?st3 = [(global_key, VStreams [])]"
    by (simp add: endStream_def updateStream_def storeStream_def mergeUpdates_def noUpdates_def
        getItem_def removeItem_def setItem_def demoStream_def Let_def)
  have v4: "removeStreamFromBroadcast ''a'' ?st3 = []"
    by (simp add: removeStreamFromBroadcast_def getItem_def removeItem_def Let_def)
  from a1 a2 a3 r1 v1 b1 r2 v2 d1 d2 r3 v3 v4 show ?thesis
    by (intro conjI)
qed

subsection \<open>Ending a stream\<close>

lemma endStream_index: "i \<notin> sid ` set (indexOf (endStream now i st))"
proof -
  let ?st1 = "snd (updateStream now i (noUpdates\<lparr>p_isLive := Some False\<rparr>) st)"
  let ?st2 = "if indexDecodes ?st1
      then setItem global_key (VStreams (filter (\<lambda>s. sid s \<noteq> i) (indexOf ?st1))) ?st1
      else ?st1"
  have e: "endStream now i st = removeItem (chat_key i) (removeItem (stream_key i) ?st2)"
    unfolding endStream_def Let_def filter_index_cases by simp
  have "getItem global_key (endStream now i st) = getItem global_key ?st2"
    unfolding e by (simp add: getItem_removeItem_other)
  then have "indexOf (endStream now i st) = indexOf ?st2"
    by (rule indexOf_other)
  moreover have "i \<notin> sid ` set (indexOf ?st2)"
    by (auto simp: indexOf_undecodable)
  ultimately show ?thesis
    by simp
qed

text \<open>
  C2. In a well-keyed storage, after \<^verbatim>\<open>endStream(id)\<close> every later call of
  \<^verbatim>\<open>getAllActiveStreams\<close> (at any time \<open>t\<close>, after any number of earlier such calls at
  the times \<open>ts\<close>) returns a list with no record of that id, and \<^verbatim>\<open>getChatMessages(id)\<close>
  returns the empty sequence: the individual record, the entry of the global list and the
  transcript are removed, and the reconciliation does not bring them back.
\<close>

theorem endStream_terminal:
  assumes "wellKeyed st"
  shows "i \<notin> sid ` set (fst (getAllActiveStreams t (reconciles ts (endStream now i st))))
     \<and> getChatMessages i (reconciles ts (endStream now i st)) = []
     \<and> getItem (stream_key i) (endStream now i st) = None
     \<and> getItem (chat_key i) (endStream now i st) = None
     \<and> i \<notin> sid ` set (indexOf (endStream now i st))"
proof (intro conjI)
  show "getItem (stream_key i) (endStream now i st) = None"
    by (rule endStream_stream_key)
  show "getItem (chat_key i) (endStream now i st) = None"
    by (rule endStream_chat_key)
  show "i \<notin> sid ` set (indexOf (endStream now i st))"
    by (rule endStream_index)
next
  let ?st = "reconciles ts (endStream now i st)"
  have wk: "wellKeyed ?st"
    using assms by (simp add: wellKeyed_endStream wellKeyed_reconciles)
  have gone: "getItem (stream_key i) ?st = None"
    by (simp add: getItem_None_reconciles endStream_stream_key)
  show "i \<notin> sid ` set (fst (getAllActiveStreams t ?st))"
  proof
    assume "i \<in> sid ` set (fst (getAllActiveStreams t ?st))"
    then obtain r where "r \<in> set (fst (getAllStreamsFromStorage t ?st))" and "sid r = i"
      by (auto simp: getAllActiveStreams_def)
    then have "getItem (stream_key i) ?st = Some (VStream r)"
      using found_stored [OF wk] by blast
    with gone show False by simp
  qed
next
  let ?st = "reconciles ts (endStream now i st)"
  have "getItem (chat_key i) ?st = None"
    by (simp add: getItem_None_reconciles endStream_chat_key)
  then show "getChatMessages i ?st = []"
    by (simp add: getChatMessages_def)
qed

text \<open>An instance: a live stream with one chat message is ended.\<close>

theorem endStream_terminal_witness:
  "wellKeyed [(stream_key ''a'', VStream (demoStream ''a'' True 50)),
              (global_key, VStreams [demoStream ''a'' True 50]),
              (chat_key ''a'', VChat [chatMessage ''a'' ''Alice'' ''hello'' None 60 ''m1''])]
   \<and> ''a'' \<notin> sid ` set (fst (getAllActiveStreams 300 (reconciles [200]
        (endStream 100 ''a''
          [(stream_key ''a'', VStream (demoStream ''a'' True 50)),
           (global_key, VStreams [demoStream ''a'' True 50]),
           (chat_key ''a'', VChat [chatMessage ''a'' ''Alice'' ''hello'' None 60 ''m1''])]))))
   \<and> getChatMessages ''a'' (reconciles [200]
        (endStream 100 ''a''
          [(stream_key ''a'', VStream (demoStream ''a'' True 50)),
           (global_key, VStreams [demoStream ''a'' True 50]),
           (chat_key ''a'', VChat [chatMessage ''a'' ''Alice'' ''hello'' None 60 ''m1''])])) = []"
proof -
  let ?st = "[(stream_key ''a'', VStream (demoStream ''a'' True 50)),
              (global_key, VStreams [demoStream ''a'' True 50]),
              (chat_key ''a'', VChat [chatMessage ''a'' ''Alice'' ''hello'' None 60 ''m1''])]"
  have h: "wellKeyed ?st"
    by (simp add: wellKeyed_def demoStream_def)
  from endStream_terminal [OF h, of "''a''" 300 "[200]" 100] h show ?thesis
    by blast
qed

end
